theory Spec2Isabelle
  imports Complex_Main
begin

section \<open>DreamMesh: the pipeline orchestrator\<close>

text \<open>
  A shallow embedding of the orchestration core of DreamMesh: the dependency sequencer,
  the code sanitizer, the attachment prompt, the render stage's snapshot capture, and the
  two retry loops of \<^verbatim>\<open>runPipeline\<close>. The language model, the QC judge, the renderer and the
  generated THREE.js code are outside the program; they enter as an environment of
  functions, about which nothing is assumed unless a theorem says so.
\<close>

subsection \<open>Data model (types.ts)\<close>

datatype AppPhase =
  IDLE | PLANNING | GENERATING | QC_ANALYSIS | FIXING | ASSEMBLING | COMPLETED | ERROR

text \<open>The field \<^verbatim>\<open>id\<close> is written \<open>id_c\<close>: \<open>id\<close> is the identity function of HOL.\<close>

record ComponentPlan =
  id_c :: string
  name :: string
  description :: string
  geometryType :: string
  materialType :: string
  dependencies :: "string list"

record BuildPlan =
  overview :: string
  components :: "ComponentPlan list"

subsection \<open>The dependency sequencer (sortComponentsTopologically)\<close>

text \<open>
  The three locals of \<^verbatim>\<open>sortComponentsTopologically\<close> that the closure \<^verbatim>\<open>visit\<close> mutates.
\<close>

record visit_state =
  visited :: "string set"
  sorted :: "ComponentPlan list"
  tempVisited :: "string set"

text \<open>Every id the traversal can meet: the ids of the plan and the ids named as dependencies.\<close>

definition mentioned :: "ComponentPlan list \<Rightarrow> string set" where
  "mentioned cs = set (map id_c cs) \<union> (\<Union>c \<in> set cs. set (dependencies c))"

text \<open>
  \<^verbatim>\<open>visit\<close>, and the \<^verbatim>\<open>forEach\<close> that calls it on each id of a list (\<open>visit_each\<close>, used for
  \<^verbatim>\<open>node.dependencies.forEach\<close> and for the outer \<^verbatim>\<open>components.forEach(c => visit(c.id))\<close>).
  \<^verbatim>\<open>components.find\<close> returns the first component with the id, or undefined, in which case
  the id stays in \<^verbatim>\<open>tempVisited\<close> and nothing is pushed. An id is never removed from
  \<^verbatim>\<open>tempVisited\<close>.
\<close>

function visit :: "ComponentPlan list \<Rightarrow> string \<Rightarrow> visit_state \<Rightarrow> visit_state"
  and visit_each :: "ComponentPlan list \<Rightarrow> string list \<Rightarrow> visit_state \<Rightarrow> visit_state" where
  "visit cs nodeId st =
     (if nodeId \<in> visited st then st
      else if nodeId \<in> tempVisited st then st
      else (let st1 = st\<lparr>tempVisited := insert nodeId (tempVisited st)\<rparr> in
        case find (\<lambda>c. id_c c = nodeId) cs of
          None \<Rightarrow> st1
        | Some node \<Rightarrow>
            (let st2 = visit_each cs (dependencies node) st1 in
             st2\<lparr>visited := insert nodeId (visited st2), sorted := sorted st2 @ [node]\<rparr>)))"
| "visit_each cs [] st = st"
| "visit_each cs (depId # rest) st = visit_each cs rest (visit cs depId st)"
  by pat_completeness auto

text \<open>
  The recursion is nested (the state of one call is the result of another), so termination
  needs a fact about results first: a call never takes an id out of \<^verbatim>\<open>tempVisited\<close>.
\<close>

lemma tempVisited_grows:
  "visit_visit_each_dom (Inl (cs, n, st)) \<Longrightarrow> tempVisited st \<subseteq> tempVisited (visit cs n st)"
  "visit_visit_each_dom (Inr (cs, ds, st)) \<Longrightarrow> tempVisited st \<subseteq> tempVisited (visit_each cs ds st)"
proof (induction cs n st and cs ds st rule: visit_visit_each.pinduct)
  case (1 cs nodeId st)
  then show ?case
    by (auto simp: visit.psimps Let_def split: option.splits)
next
  case (2 cs st)
  then show ?case by (simp add: visit_each.psimps)
next
  case (3 cs depId rest st)
  then show ?case by (auto simp: visit_each.psimps)
qed

termination visit
proof (relation "measures
    [\<lambda>x. case x of Inl (cs, n, st) \<Rightarrow> card (mentioned cs - tempVisited st)
                  | Inr (cs, ds, st) \<Rightarrow> card (mentioned cs - tempVisited st),
     \<lambda>x. case x of Inl (cs, n, st) \<Rightarrow> 0
                  | Inr (cs, ds, st) \<Rightarrow> Suc (length ds)]", goal_cases)
  case 1
  then show ?case by simp
next
  case (2 cs nodeId st st1 node)
  have "nodeId \<in> mentioned cs"
    using 2 by (auto simp: mentioned_def find_Some_iff)
  moreover have "finite (mentioned cs)"
    by (simp add: mentioned_def)
  ultimately have "card (mentioned cs - insert nodeId (tempVisited st))
      < card (mentioned cs - tempVisited st)"
    using 2 by (intro psubset_card_mono) auto
  then show ?case using 2 by simp
next
  case (3 cs depId rest st)
  then show ?case by simp
next
  case (4 cs depId rest st)
  have "tempVisited st \<subseteq> tempVisited (visit cs depId st)"
    using 4 tempVisited_grows(1) by blast
  then have "card (mentioned cs - tempVisited (visit cs depId st))
      \<le> card (mentioned cs - tempVisited st)"
    by (intro card_mono) (auto simp: mentioned_def)
  then show ?case by auto
qed

declare visit.simps [simp del]

definition sortComponentsTopologically :: "ComponentPlan list \<Rightarrow> ComponentPlan list" where
  "sortComponentsTopologically cs =
     sorted (visit_each cs (map id_c cs) \<lparr>visited = {}, sorted = [], tempVisited = {}\<rparr>)"

text \<open>The dependency edges of a plan: from a component's id to each id it names.\<close>

definition dep_edges :: "ComponentPlan list \<Rightarrow> (string \<times> string) set" where
  "dep_edges cs = {(id_c c, d) | c d. c \<in> set cs \<and> d \<in> set (dependencies c)}"

text \<open>
  The ids of the plan that are being visited: in \<^verbatim>\<open>tempVisited\<close> and not yet in
  \<^verbatim>\<open>visited\<close>. These are the calls of \<^verbatim>\<open>visit\<close> that have not returned.
\<close>

definition in_progress :: "ComponentPlan list \<Rightarrow> visit_state \<Rightarrow> string set" where
  "in_progress cs st = (tempVisited st \<inter> set (map id_c cs)) - visited st"

text \<open>
  The component at position \<open>j\<close> of a list is in order when each of its dependencies that is
  in the plan either stands earlier in the list or closes a cycle through that component.
\<close>

definition ordered_at :: "ComponentPlan list \<Rightarrow> ComponentPlan list \<Rightarrow> nat \<Rightarrow> bool" where
  "ordered_at cs S j \<longleftrightarrow>
     (\<forall>d \<in> set (dependencies (S ! j)). d \<in> set (map id_c cs) \<longrightarrow>
        (\<exists>i < j. id_c (S ! i) = d) \<or> (d, id_c (S ! j)) \<in> (dep_edges cs)\<^sup>+)"

text \<open>
  The invariant of the traversal. \<^verbatim>\<open>visited\<close> is the set of ids of \<^verbatim>\<open>sorted\<close>; no id is
  pushed twice; every pushed component is the one \<^verbatim>\<open>find\<close> returns for its id; and every
  position of \<^verbatim>\<open>sorted\<close> is in order.
\<close>

definition seq_inv :: "ComponentPlan list \<Rightarrow> visit_state \<Rightarrow> bool" where
  "seq_inv cs st \<longleftrightarrow>
     visited st = id_c ` set (sorted st) \<and>
     distinct (map id_c (sorted st)) \<and>
     (\<forall>c \<in> set (sorted st). find (\<lambda>x. id_c x = id_c c) cs = Some c) \<and>
     (\<forall>j < length (sorted st). ordered_at cs (sorted st) j)"

text \<open>Plans for the scenarios of the sequencer: a component is given by its id and dependencies.\<close>

definition mkComponent :: "string \<Rightarrow> string list \<Rightarrow> ComponentPlan" where
  "mkComponent i deps = \<lparr>id_c = i, name = i, description = [], geometryType = [],
     materialType = [], dependencies = deps\<rparr>"

definition plan_star :: "ComponentPlan list" where
  "plan_star = [mkComponent ''B'' [''A''], mkComponent ''C'' [''A''], mkComponent ''A'' []]"

definition plan_cycle :: "ComponentPlan list" where
  "plan_cycle = [mkComponent ''A'' [''B'', ''ghost''], mkComponent ''B'' [''A'']]"

subsection \<open>Regular expressions of the sanitizer\<close>

text \<open>
  Texts are HOL strings. The whitespace class \<^verbatim>\<open>\s\<close> and the line terminators (which \<^verbatim>\<open>.\<close>
  does not match) are the ECMAScript ones that an 8-bit character can be: TAB, LF, VT, FF,
  CR, SPACE and NBSP; CR and LF.
\<close>

definition isSpace :: "char \<Rightarrow> bool" where
  "isSpace c \<longleftrightarrow> of_char c \<in> {9, 10, 11, 12, 13, 32, 160 :: nat}"

definition isLineTerminator :: "char \<Rightarrow> bool" where
  "isLineTerminator c \<longleftrightarrow> of_char c \<in> {10, 13 :: nat}"

text \<open>
  The pieces the patterns of \<^verbatim>\<open>cleanCode\<close> and \<^verbatim>\<open>sanitizeCode\<close> are made of: a literal
  character, \<^verbatim>\<open>\s+\<close>, \<^verbatim>\<open>\s*\<close> (both greedy), the lazy \<^verbatim>\<open>.*?\<close>, and the lazy capturing group
  \<^verbatim>\<open>([\s\S]*?)\<close>.
\<close>

datatype rx = Chr char | Spaces | SpacesStar | AnyLazy | Capture

text \<open>
  A backtracking matcher anchored at the start of the text, with the priorities of an
  ECMAScript engine: a greedy repetition first tries one more character, a lazy one first
  tries to go on with the rest of the pattern. The result is the captured text (empty when
  the pattern has no group) and the text left after the match.
\<close>

fun matchHere :: "rx list \<Rightarrow> string \<Rightarrow> (string \<times> string) option" where
  "matchHere [] s = Some ([], s)"
| "matchHere (Chr c # r) [] = None"
| "matchHere (Chr c # r) (x # s) = (if x = c then matchHere r s else None)"
| "matchHere (Spaces # r) [] = None"
| "matchHere (Spaces # r) (x # s) = (if isSpace x then matchHere (SpacesStar # r) s else None)"
| "matchHere (SpacesStar # r) [] = matchHere r []"
| "matchHere (SpacesStar # r) (x # s) =
     (if isSpace x
      then (case matchHere (SpacesStar # r) s of
              Some m \<Rightarrow> Some m
            | None \<Rightarrow> matchHere r (x # s))
      else matchHere r (x # s))"
| "matchHere (AnyLazy # r) [] = matchHere r []"
| "matchHere (AnyLazy # r) (x # s) =
     (case matchHere r (x # s) of
        Some m \<Rightarrow> Some m
      | None \<Rightarrow> if isLineTerminator x then None else matchHere (AnyLazy # r) s)"
| "matchHere (Capture # r) [] = matchHere r []"
| "matchHere (Capture # r) (x # s) =
     (case matchHere r (x # s) of
        Some (g, t) \<Rightarrow> Some ([], t)
      | None \<Rightarrow>
          (case matchHere (Capture # r) s of
             Some (g, t) \<Rightarrow> Some (x # g, t)
           | None \<Rightarrow> None))"

text \<open>
  \<^verbatim>\<open>String.prototype.replace\<close> with a global pattern and a replacement text without \<^verbatim>\<open>$\<close>:
  the leftmost match is replaced and the scan goes on after it; after an empty match the
  scan moves one character on.
\<close>

fun replaceAll :: "rx list \<Rightarrow> string \<Rightarrow> string \<Rightarrow> string" where
  "replaceAll pat rep [] = (case matchHere pat [] of Some m \<Rightarrow> rep | None \<Rightarrow> [])"
| "replaceAll pat rep (x # s) =
     (case matchHere pat (x # s) of
        None \<Rightarrow> x # replaceAll pat rep s
      | Some (g, t) \<Rightarrow>
          if length t < length (x # s) then rep @ replaceAll pat rep t
          else rep @ x # replaceAll pat rep s)"

text \<open>
  \<^verbatim>\<open>String.prototype.match\<close> without the global flag, for a pattern given as the ordered list
  of its alternatives: the capture of the leftmost match.
\<close>

fun firstOf :: "rx list list \<Rightarrow> string \<Rightarrow> (string \<times> string) option" where
  "firstOf [] s = None"
| "firstOf (p # ps) s = (case matchHere p s of Some m \<Rightarrow> Some m | None \<Rightarrow> firstOf ps s)"

fun matchFirst :: "rx list list \<Rightarrow> string \<Rightarrow> string option" where
  "matchFirst ps [] = map_option fst (firstOf ps [])"
| "matchFirst ps (x # s) =
     (case firstOf ps (x # s) of Some (g, t) \<Rightarrow> Some g | None \<Rightarrow> matchFirst ps s)"

definition lit :: "string \<Rightarrow> rx list" where
  "lit s = map Chr s"

text \<open>The five patterns that \<^verbatim>\<open>cleanCode\<close> and \<^verbatim>\<open>sanitizeCode\<close> replace.\<close>

definition rx_export :: "rx list" where
  "rx_export = lit ''export'' @ [Spaces]"

definition rx_export_default :: "rx list" where
  "rx_export_default = rx_export @ lit ''default'' @ [Spaces]"

definition rx_export_default_function :: "rx list" where
  "rx_export_default_function = rx_export @ lit ''default'' @ [Spaces] @ lit ''function''"

definition rx_import_from :: "rx list" where
  "rx_import_from = lit ''import'' @ [Spaces, AnyLazy] @ lit ''from'' @ [Spaces, AnyLazy]"

definition rx_import_from_semi :: "rx list" where
  "rx_import_from_semi = rx_import_from @ [Chr CHR '';'']"

text \<open>
  The fence pattern \<^verbatim>\<open>/```(?:javascript|js)?\s*([\s\S]*?)\s*```/\<close> of \<^verbatim>\<open>cleanCode\<close>. The optional
  group is the only choice before the capture, so the pattern is the ordered choice of its
  three readings.
\<close>

definition rx_fence :: "rx list list" where
  "rx_fence =
     map (\<lambda>lang. lit ''```'' @ lit lang @ [SpacesStar, Capture, SpacesStar] @ lit ''```'')
       [''javascript'', ''js'', []]"

subsection \<open>cleanCode and sanitizeCode\<close>

definition sanitizeCode :: "string \<Rightarrow> string" where
  "sanitizeCode code =
     replaceAll rx_import_from []
       (replaceAll rx_import_from_semi []
         (replaceAll rx_export []
           (replaceAll rx_export_default []
             (replaceAll rx_export_default_function ''function'' code))))"

definition cleanCode :: "string \<Rightarrow> string" where
  "cleanCode text =
     (let code = (case matchFirst rx_fence text of Some g \<Rightarrow> g | None \<Rightarrow> text) in
      replaceAll rx_import_from []
        (replaceAll rx_import_from_semi []
          (replaceAll rx_export []
            (replaceAll rx_export_default []
              (replaceAll rx_export_default_function ''function'' code)))))"

text \<open>Whether a pattern matches somewhere in a text.\<close>

fun occurs :: "rx list \<Rightarrow> string \<Rightarrow> bool" where
  "occurs pat [] = (matchHere pat [] \<noteq> None)"
| "occurs pat (x # s) = (matchHere pat (x # s) \<noteq> None \<or> occurs pat s)"

subsection \<open>Requests to the language model (geminiService.ts)\<close>

text \<open>
  A request is the model id and the list of parts; the system instruction and the sampling
  configuration are constants of each function and are left out. \<^verbatim>\<open>formatImagesForPrompt\<close>
  keeps of a data URL what \<^verbatim>\<open>split('base64,')[1]\<close> is: the text between the first and the
  second separator.
\<close>

datatype part = Text string | InlineImage string

record llm_request =
  model :: string
  parts :: "part list"

fun afterFirst :: "string \<Rightarrow> string \<Rightarrow> string option" where
  "afterFirst sep [] = (if sep = [] then Some [] else None)"
| "afterFirst sep (x # s) =
     (if take (length sep) (x # s) = sep then Some (drop (length sep) (x # s))
      else afterFirst sep s)"

fun beforeFirst :: "string \<Rightarrow> string \<Rightarrow> string" where
  "beforeFirst sep [] = []"
| "beforeFirst sep (x # s) =
     (if take (length sep) (x # s) = sep then [] else x # beforeFirst sep s)"

definition formatImagesForPrompt :: "string list \<Rightarrow> part list" where
  "formatImagesForPrompt b64Images =
     map (\<lambda>img. InlineImage
        (case afterFirst ''base64,'' img of
           Some rest \<Rightarrow> beforeFirst ''base64,'' rest
         | None \<Rightarrow> img)) b64Images"

text \<open>
  A JavaScript value \<^verbatim>\<open>string | undefined\<close> is a \<open>string option\<close>; it is truthy when it is a
  non-empty string.
\<close>

definition truthy :: "string option \<Rightarrow> bool" where
  "truthy v = (case v of None \<Rightarrow> False | Some s \<Rightarrow> s \<noteq> [])"

text \<open>
  The prompt of \<^verbatim>\<open>generateAttachmentCode\<close>: the template, and the retry paragraph, which is
  appended when both \<^verbatim>\<open>previousCode\<close> and \<^verbatim>\<open>errorContext\<close> are truthy.
\<close>

definition attachmentPrompt ::
  "string \<Rightarrow> string \<Rightarrow> string \<Rightarrow> string option \<Rightarrow> string option \<Rightarrow> string" where
  "attachmentPrompt overview_text partName partDescription previousCode errorContext =
     ''\<newline>    Assembly Plan: '' @ overview_text @
     ''\<newline>    Task: Attach \"'' @ partName @ ''\" ('' @ partDescription @
     '') to the current model.\<newline>    \<newline>'' @
     ''    CRITICAL: Look at the 'PART TO ATTACH' images provided below. \<newline>'' @
     ''    - Determine if the 'part' object is ALREADY a composite (e.g. a single mesh containing a Pair of Legs).\<newline>'' @
     ''    - If it is ALREADY a pair/group, DO NOT clone it multiple times. Just position it. \<newline>'' @
     ''    - If it is a single item (e.g. one wheel) and the plan requires multiple (e.g. 4 wheels), YOU MUST clone it.\<newline>'' @
     ''    \<newline>    Write the 'attach' function.\<newline>  '' @
     (if truthy previousCode \<and> truthy errorContext
      then ''\<newline>\<newline>PREVIOUS ATTEMPT FAILED.\<newline>Feedback: '' @ the errorContext @
           ''\<newline>\<newline>Previous Code:\<newline>'' @ the previousCode @
           ''\<newline>\<newline>FIX THE CODE. \<newline>- Adjust coordinates, scale, or rotation based on the visual feedback.''
      else [])"

definition attachmentRequest ::
  "string \<Rightarrow> string \<Rightarrow> string \<Rightarrow> string list \<Rightarrow> string list \<Rightarrow>
   string option \<Rightarrow> string option \<Rightarrow> string \<Rightarrow> llm_request" where
  "attachmentRequest overview_text partName partDescription currentAssemblyImages partImages
       previousCode errorContext modelId =
     \<lparr>model = modelId,
      parts = [Text ''CURRENT ASSEMBLY STATE (Visual Context):''] @
              formatImagesForPrompt currentAssemblyImages @
              [Text ''PART TO ATTACH (Visual Context - 8 angles):''] @
              formatImagesForPrompt partImages @
              [Text (attachmentPrompt overview_text partName partDescription
                       previousCode errorContext)]\<rparr>"

text \<open>The prompt of \<^verbatim>\<open>generateComponentCode\<close> and its request.\<close>

definition componentPrompt :: "string \<Rightarrow> string \<Rightarrow> string option \<Rightarrow> string option \<Rightarrow> string" where
  "componentPrompt componentName description_text previousCode errorContext =
     ''Create a component: \"'' @ componentName @ ''\". Description: '' @ description_text @ ''.'' @
     (if truthy previousCode \<and> truthy errorContext
      then ''\<newline>\<newline>PREVIOUS ATTEMPT FAILED.\<newline>Error/Feedback: '' @ the errorContext @
           ''\<newline>\<newline>Previous Code:\<newline>'' @ the previousCode @
           ''\<newline>\<newline>FIX THE CODE. Do not use export default.''
      else [])"

definition componentRequest ::
  "string \<Rightarrow> string \<Rightarrow> string option \<Rightarrow> string option \<Rightarrow> string list \<Rightarrow> string \<Rightarrow> llm_request" where
  "componentRequest componentName description_text previousCode errorContext contextImages modelId =
     \<lparr>model = modelId,
      parts = [Text (componentPrompt componentName description_text previousCode errorContext)] @
              (if contextImages \<noteq> []
               then [Text ''\<newline>\<newline>VISUAL CONTEXT: Below are images of the parts generated so far for this model. Ensure the new part maintains stylistic consistency (scale, detail level, aesthetics) with these existing parts.''] @
                    formatImagesForPrompt contextImages
               else [])\<rparr>"

subsection \<open>The scene graph (THREE.Object3D)\<close>

text \<open>
  Objects of the scene graph live in a store: generated code and the pipeline hold references
  to them, and what the attachment logic may change depends on which object a reference
  names. An object is its child list, its parent and its local transform; geometry and
  materials are not modelled. Numbers are reals.
\<close>

type_synonym addr = nat
type_synonym vec3 = "real \<times> real \<times> real"

record object3d =
  children :: "addr list"
  parent :: "addr option"
  position :: vec3
  rotation :: vec3
  scale :: vec3

record object_store =
  cells :: "addr \<Rightarrow> object3d option"
  nxt :: addr

definition vadd :: "vec3 \<Rightarrow> vec3 \<Rightarrow> vec3" where
  "vadd u v = (case u of (a, b, c) \<Rightarrow> case v of (d, e, f) \<Rightarrow> (a + d, b + e, c + f))"

definition vsub :: "vec3 \<Rightarrow> vec3 \<Rightarrow> vec3" where
  "vsub u v = (case u of (a, b, c) \<Rightarrow> case v of (d, e, f) \<Rightarrow> (a - d, b - e, c - f))"

definition vscale :: "real \<Rightarrow> vec3 \<Rightarrow> vec3" where
  "vscale k v = (case v of (a, b, c) \<Rightarrow> (k * a, k * b, k * c))"

definition newObject :: "vec3 \<Rightarrow> object3d" where
  "newObject p = \<lparr>children = [], parent = None, position = p, rotation = (0, 0, 0),
     scale = (1, 1, 1)\<rparr>"

text \<open>A new object takes the next address.\<close>

definition put_new :: "object3d \<Rightarrow> object_store \<Rightarrow> object_store" where
  "put_new ob h = h\<lparr>cells := (cells h)(nxt h \<mapsto> ob), nxt := Suc (nxt h)\<rparr>"

definition alloc :: "object3d \<Rightarrow> object_store \<Rightarrow> object_store \<times> addr" where
  "alloc ob h = (put_new ob h, nxt h)"

definition update_obj :: "addr \<Rightarrow> (object3d \<Rightarrow> object3d) \<Rightarrow> object_store \<Rightarrow> object_store" where
  "update_obj a f h = h\<lparr>cells := (cells h)(a := map_option f (cells h a))\<rparr>"

text \<open>
  \<^verbatim>\<open>Object3D.remove\<close>, \<^verbatim>\<open>Object3D.add\<close> and \<^verbatim>\<open>Object3D.clear\<close> of three.js: \<^verbatim>\<open>remove\<close> takes the
  first occurrence of the child out of the list and clears its parent; \<^verbatim>\<open>add\<close> takes the
  object from its former parent, sets its parent and pushes it; \<^verbatim>\<open>clear\<close> removes every child.
\<close>

definition remove_child :: "addr \<Rightarrow> addr \<Rightarrow> object_store \<Rightarrow> object_store" where
  "remove_child p c h =
     (case cells h p of
        None \<Rightarrow> h
      | Some po \<Rightarrow>
          if c \<in> set (children po)
          then update_obj p (\<lambda>ob. ob\<lparr>children := remove1 c (children ob)\<rparr>)
                 (update_obj c (\<lambda>ob. ob\<lparr>parent := None\<rparr>) h)
          else h)"

definition add_child :: "addr \<Rightarrow> addr \<Rightarrow> object_store \<Rightarrow> object_store" where
  "add_child p c h =
     (if c = p then h
      else case cells h c of
        None \<Rightarrow> h
      | Some co \<Rightarrow>
          let h1 = (case parent co of None \<Rightarrow> h | Some q \<Rightarrow> remove_child q c h) in
          update_obj p (\<lambda>ob. ob\<lparr>children := children ob @ [c]\<rparr>)
            (update_obj c (\<lambda>ob. ob\<lparr>parent := Some p\<rparr>) h1))"

definition clear :: "addr \<Rightarrow> object_store \<Rightarrow> object_store" where
  "clear p h =
     (case cells h p of
        None \<Rightarrow> h
      | Some po \<Rightarrow>
          update_obj p (\<lambda>ob. ob\<lparr>children := []\<rparr>)
            (fold (\<lambda>c. update_obj c (\<lambda>ob. ob\<lparr>parent := None\<rparr>)) (children po) h))"

text \<open>
  \<^verbatim>\<open>Object3D.clone()\<close>: a new object with the transform of the source, to which a clone of
  each child of the source is added. The recursion follows the child lists of the store, so
  it carries the depth it may still descend; \<open>clone\<close> starts it with more than the number of
  objects there are, which is enough for every tree. The result is \<open>None\<close> where JavaScript
  throws: a child that is no object, or child lists that never end.
\<close>

fun clone_rec :: "nat \<Rightarrow> addr \<Rightarrow> object_store \<Rightarrow> (object_store \<times> addr) option"
  and clone_children :: "nat \<Rightarrow> addr \<Rightarrow> addr list \<Rightarrow> object_store \<Rightarrow> object_store option" where
  "clone_rec 0 a h = None"
| "clone_rec (Suc n) a h =
     (case cells h a of
        None \<Rightarrow> None
      | Some ob \<Rightarrow>
          (case alloc (ob\<lparr>children := [], parent := None\<rparr>) h of
             (h1, b) \<Rightarrow>
               (case clone_children n b (children ob) h1 of
                  None \<Rightarrow> None
                | Some h2 \<Rightarrow> Some (h2, b))))"
| "clone_children n b [] h = Some h"
| "clone_children n b (c # cs) h =
     (case clone_rec n c h of
        None \<Rightarrow> None
      | Some (h1, c') \<Rightarrow> clone_children n b cs (add_child b c' h1))"

definition clone :: "addr \<Rightarrow> object_store \<Rightarrow> (object_store \<times> addr) option" where
  "clone a h = clone_rec (Suc (nxt h)) a h"

subsection \<open>The render stage (ThreeStage)\<close>

text \<open>
  What the handle of the stage reads and writes: whether the effect has run (renderer, scene,
  camera and group are set together), the group for generated content, the camera, the
  target of the orbit controls (\<open>None\<close> while \<^verbatim>\<open>controlsRef\<close> is null), the background colour of
  the scene and the visibility of its grid (\<open>None\<close> when the scene has no grid).
  \<open>cameraTarget\<close> is the point \<^verbatim>\<open>camera.lookAt\<close> was last given.
\<close>

record stage_handle =
  initialized :: bool
  rootGroup :: addr
  cameraPosition :: vec3
  cameraTarget :: vec3
  cameraNear :: real
  cameraFar :: real
  cameraFov :: real
  controlsTarget :: "vec3 option"
  background :: string
  gridVisible :: "bool option"

text \<open>
  The effect that runs once: the scene with its grid, its six lights and the root group, and
  the camera at (5, 5, 5) with clipping planes 0.1 and 1000.
\<close>

fun allocAll :: "object3d list \<Rightarrow> object_store \<Rightarrow> object_store \<times> addr list" where
  "allocAll [] h = (h, [])"
| "allocAll (ob # obs) h =
     (case alloc ob h of (h1, a) \<Rightarrow> case allocAll obs h1 of (h2, as) \<Rightarrow> (h2, a # as))"

definition mountStage :: "object_store \<Rightarrow> object_store \<times> stage_handle" where
  "mountStage h =
     (case alloc (newObject (0, 0, 0)) h of (h1, scene) \<Rightarrow>
      case allocAll (map newObject
             [(0, 0, 0), (0, 0, 0), (0, 20, 0), (5, 10, 7), (-5, 2, 5), (0, 5, -10), (0, -10, 0),
              (0, 0, 0)]) h1 of (h2, as) \<Rightarrow>
        (fold (add_child scene) as h2,
         \<lparr>initialized = True, rootGroup = last as, cameraPosition = (5, 5, 5),
          cameraTarget = (0, 0, 0), cameraNear = 0.1, cameraFar = 1000, cameraFov = 45,
          controlsTarget = Some (0, 0, 0), background = ''#111111'',
          gridVisible = Some True\<rparr>))"

definition resetScene :: "stage_handle \<Rightarrow> object_store \<Rightarrow> object_store" where
  "resetScene sg h = (if initialized sg then clear (rootGroup sg) h else h)"

definition addObject :: "stage_handle \<Rightarrow> addr \<Rightarrow> object_store \<Rightarrow> object_store" where
  "addObject sg a h = (if initialized sg then add_child (rootGroup sg) a h else h)"

subsection \<open>The environment\<close>

record QCResult =
  passed :: bool
  feedback :: string
  score :: int

text \<open>
  Everything the pipeline calls and does not define. An oracle that can throw returns the
  message on the left. The oracles of the language model take the number of calls made
  before, so that two equal requests may be answered differently.
  \<^item> \<open>planOracle\<close>: \<^verbatim>\<open>generateBuildPlan(userPrompt, modelId)\<close>.
  \<^item> \<open>codeOracle\<close>: the text of the reply to a request for code (empty when there is none).
  \<^item> \<open>visualQC\<close>: \<^verbatim>\<open>performVisualQC(componentName, images, contextImages)\<close>.
  \<^item> \<open>assemblyQC\<close>: \<^verbatim>\<open>performAssemblyQC(planOverview, currentPartName, images)\<close>.
  \<^item> \<open>runCreatePart\<close>: what running the sanitized construction code and its \<^verbatim>\<open>createPart(THREE)\<close>
    does to the store, and the object returned, or the message and stack of the error (also
    when the value returned is no Object3D).
  \<^item> \<open>runAttach\<close>: what running the sanitized attachment code and its \<^verbatim>\<open>attach(root, part)\<close>
    does to the store, and the message if it throws.
  \<^item> \<open>render\<close>: \<^verbatim>\<open>renderer.render\<close> and \<^verbatim>\<open>toDataURL\<close>: the PNG data URL of the scene as the
    camera sees it, or the message when one of the two throws.
  \<^item> \<open>boundingBox\<close>: \<^verbatim>\<open>Box3().setFromObject\<close>, \<open>None\<close> for the empty box.
\<close>

record env =
  planOracle :: "string \<Rightarrow> string \<Rightarrow> string + BuildPlan"
  codeOracle :: "nat \<Rightarrow> llm_request \<Rightarrow> string + string"
  visualQC :: "nat \<Rightarrow> string \<Rightarrow> string list \<Rightarrow> string list \<Rightarrow> string + QCResult"
  assemblyQC :: "nat \<Rightarrow> string \<Rightarrow> string \<Rightarrow> string list \<Rightarrow> string + QCResult"
  runCreatePart :: "string \<Rightarrow> object_store \<Rightarrow> object_store \<times> ((string \<times> string) + addr)"
  runAttach :: "string \<Rightarrow> addr \<Rightarrow> addr \<Rightarrow> object_store \<Rightarrow> object_store \<times> string option"
  render :: "object_store \<Rightarrow> stage_handle \<Rightarrow> string + string"
  boundingBox :: "object_store \<Rightarrow> addr \<Rightarrow> (vec3 \<times> vec3) option"

subsection \<open>captureSnapshots\<close>

definition normalize :: "vec3 \<Rightarrow> vec3" where
  "normalize v =
     (case v of (a, b, c) \<Rightarrow>
        let l = sqrt (a * a + b * b + c * c) in
        if l = 0 then (0, 0, 0) else (a / l, b / l, c / l))"

text \<open>
  The loop over the eight camera positions: place the camera, set the clipping planes,
  render. A render that throws ends the loop there, with the camera as it was placed.
\<close>

fun snapshotLoop ::
  "env \<Rightarrow> object_store \<Rightarrow> vec3 \<Rightarrow> real \<Rightarrow> vec3 list \<Rightarrow> stage_handle \<Rightarrow>
   (string + string list) \<times> stage_handle" where
  "snapshotLoop e h center cameraDistance [] sg = (Inr [], sg)"
| "snapshotLoop e h center cameraDistance (offset # rest) sg =
     (let sg1 = sg\<lparr>cameraPosition := vadd center offset, cameraTarget := center,
                   cameraNear := max 0.01 (cameraDistance / 100),
                   cameraFar := max 1000 (cameraDistance * 10)\<rparr>
      in case render e h sg1 of
           Inl err \<Rightarrow> (Inl err, sg1)
         | Inr img \<Rightarrow>
             (case snapshotLoop e h center cameraDistance rest sg1 of
                (Inl err, sg2) \<Rightarrow> (Inl err, sg2)
              | (Inr snapshots, sg2) \<Rightarrow> (Inr (img # snapshots), sg2)))"

text \<open>
  The distance of the camera. On reals a quotient by zero is zero, which the test
  \<^verbatim>\<open>cameraDistance < 0.1\<close> sends to the fallback as \<^verbatim>\<open>!isFinite(cameraDistance)\<close> does in
  JavaScript.
\<close>

definition cameraDistanceFor :: "real \<Rightarrow> vec3 \<Rightarrow> real" where
  "cameraDistanceFor fovDegrees boxSize =
     (case boxSize of (sx, sy, sz) \<Rightarrow>
        let maxDim = max sx (max sy sz);
            fov = fovDegrees * (pi / 180);
            d = \<bar>maxDim / (2 * tan (fov / 2))\<bar> * 1.5
        in if maxDim = 0 \<or> d < 0.1 then 5 else d)"

definition cornerOffsets :: "real \<Rightarrow> vec3 list" where
  "cornerOffsets cameraDistance =
     concat (map (\<lambda>x. concat (map (\<lambda>y. map (\<lambda>z.
       vscale cameraDistance (normalize (x, y, z))) [1, -1]) [1, -1])) [1, -1])"

text \<open>
  \<^verbatim>\<open>captureSnapshots\<close>. The statements after the loop are not in a \<^verbatim>\<open>finally\<close>: when a render
  throws, the error leaves the function with the white background, the visible grid, the
  camera and the clipping planes of that moment.
\<close>

definition captureSnapshots ::
  "env \<Rightarrow> object_store \<Rightarrow> stage_handle \<Rightarrow> (string + string list) \<times> stage_handle" where
  "captureSnapshots e h sg =
     (if \<not> initialized sg then (Inr [], sg)
      else
        let originalPos = cameraPosition sg;
            originalTarget = (case controlsTarget sg of Some t \<Rightarrow> t | None \<Rightarrow> (0, 0, 0));
            originalBackground = background sg;
            originalGridVisible = (case gridVisible sg of Some v \<Rightarrow> v | None \<Rightarrow> True);
            sg1 = sg\<lparr>background := ''#ffffff'',
                     gridVisible := map_option (\<lambda>v. True) (gridVisible sg)\<rparr>;
            box = boundingBox e h (rootGroup sg);
            boxSize = (case box of None \<Rightarrow> (0, 0, 0) | Some (lo, hi) \<Rightarrow> vsub hi lo);
            center = (case box of None \<Rightarrow> (0, 0, 0) | Some (lo, hi) \<Rightarrow> vscale (1 / 2) (vadd lo hi));
            cameraDistance = cameraDistanceFor (cameraFov sg) boxSize
        in case snapshotLoop e h center cameraDistance (cornerOffsets cameraDistance) sg1 of
             (Inl err, sg2) \<Rightarrow> (Inl err, sg2)
           | (Inr snapshots, sg2) \<Rightarrow>
               (Inr snapshots,
                sg2\<lparr>background := originalBackground,
                    gridVisible := map_option (\<lambda>v. originalGridVisible) (gridVisible sg2),
                    cameraPosition := originalPos,
                    controlsTarget := map_option (\<lambda>t. originalTarget) (controlsTarget sg2),
                    cameraTarget := originalTarget,
                    cameraNear := 0.1,
                    cameraFar := 1000\<rparr>))"

subsection \<open>Pipeline state\<close>

datatype Status = PENDING | GENERATED | VERIFIED | FAILED

record ComponentArtifact =
  plan :: ComponentPlan
  code :: string
  status :: Status
  retryCount :: nat
  qcHistory :: "QCResult list"
  errorLogs :: "string list"
  images :: "string list"

text \<open>
  What leaves the program for the language model: the arguments of \<^verbatim>\<open>generateBuildPlan\<close>,
  \<^verbatim>\<open>performVisualQC\<close> and \<^verbatim>\<open>performAssemblyQC\<close>, and the request that \<^verbatim>\<open>generateComponentCode\<close>
  and \<^verbatim>\<open>generateAttachmentCode\<close> hand to \<^verbatim>\<open>generateContent\<close>.
\<close>

datatype call =
    GenerateBuildPlan string string
  | GenerateContent llm_request
  | PerformVisualQC string "string list" "string list"
  | PerformAssemblyQC string string "string list"

text \<open>
  The state that \<^verbatim>\<open>runPipeline\<close> and \<^verbatim>\<open>processComponent\<close> share: the phase, the React state
  \<^verbatim>\<open>components\<close>, the objects of the verified components, the store and the stage, and two
  histories: the phases set since the run began, and the calls made to the language model,
  oldest first. The code model and the two judges are applied in \<open>generateContent\<close>,
  \<open>performVisualQC\<close> and \<open>performAssemblyQC\<close> only, each to the values it enters in the
  history; the request for the plan is entered by \<open>startRun\<close>. Logging, the processing marker
  and the usage quota are left out.
\<close>

record pstate =
  phase :: AppPhase
  phaseLog :: "AppPhase list"
  componentsUI :: "string \<rightharpoonup> ComponentArtifact"
  validatedObjects :: "string \<rightharpoonup> addr"
  objs :: object_store
  stage :: stage_handle
  calls :: "call list"

text \<open>
  The dictionaries \<^verbatim>\<open>components\<close>, \<^verbatim>\<open>pipelineComponents\<close> and \<^verbatim>\<open>validatedObjects\<close> are plain
  JavaScript objects keyed by component id. They are maps; the entry at \<^verbatim>\<open>__proto__\<close> stands
  for the prototype, which an assignment at that key sets and a lookup there returns. A
  spread copies the own properties, so it loses this entry. (An own property of that name,
  which only \<^verbatim>\<open>setComponents\<close> for a component of that id would make, is not told apart
  from the prototype.)
\<close>

definition spread :: "(string \<rightharpoonup> 'a) \<Rightarrow> (string \<rightharpoonup> 'a)" where
  "spread m = m(''__proto__'' := None)"

definition setPhase :: "AppPhase \<Rightarrow> pstate \<Rightarrow> pstate" where
  "setPhase p st = st\<lparr>phase := p, phaseLog := phaseLog st @ [p]\<rparr>"

text \<open>\<^verbatim>\<open>setComponents(prev => ({ ...prev, [id]: currentArtifact }))\<close>.\<close>

definition setComponent :: "string \<Rightarrow> ComponentArtifact \<Rightarrow> pstate \<Rightarrow> pstate" where
  "setComponent cid art st = st\<lparr>componentsUI := (spread (componentsUI st))(cid \<mapsto> art)\<rparr>"

definition logCall :: "call \<Rightarrow> pstate \<Rightarrow> pstate" where
  "logCall c st = st\<lparr>calls := calls st @ [c]\<rparr>"

subsection \<open>The functions of geminiService.ts that call the language model\<close>

text \<open>
  \<^verbatim>\<open>getAi().models.generateContent\<close>: the request goes to the model, which answers with a text
  or throws. The request is entered in the history of calls.
\<close>

definition generateContent :: "env \<Rightarrow> llm_request \<Rightarrow> pstate \<Rightarrow> pstate \<times> (string + string)" where
  "generateContent e request st = (logCall (GenerateContent request) st, codeOracle e (length (calls st)) request)"

definition generateComponentCode ::
  "env \<Rightarrow> string \<Rightarrow> string \<Rightarrow> string option \<Rightarrow> string option \<Rightarrow> string list \<Rightarrow> string \<Rightarrow>
   pstate \<Rightarrow> pstate \<times> (string + string)" where
  "generateComponentCode e componentName description_text previousCode errorContext
       contextImages modelId st =
     (case generateContent e (componentRequest componentName description_text previousCode
             errorContext contextImages modelId) st of
        (st1, Inl err) \<Rightarrow> (st1, Inl err)
      | (st1, Inr text) \<Rightarrow> (st1, Inr (cleanCode text)))"

definition generateAttachmentCode ::
  "env \<Rightarrow> string \<Rightarrow> string \<Rightarrow> string \<Rightarrow> string list \<Rightarrow> string list \<Rightarrow>
   string option \<Rightarrow> string option \<Rightarrow> string \<Rightarrow> pstate \<Rightarrow> pstate \<times> (string + string)" where
  "generateAttachmentCode e overview_text partName partDescription currentAssemblyImages
       partImages previousCode errorContext modelId st =
     (case generateContent e (attachmentRequest overview_text partName partDescription
             currentAssemblyImages partImages previousCode errorContext modelId) st of
        (st1, Inl err) \<Rightarrow> (st1, Inl err)
      | (st1, Inr text) \<Rightarrow> (st1, Inr (cleanCode text)))"

text \<open>The two judges, with the arguments they are called with.\<close>

definition performVisualQC ::
  "env \<Rightarrow> string \<Rightarrow> string list \<Rightarrow> string list \<Rightarrow> pstate \<Rightarrow> pstate \<times> (string + QCResult)" where
  "performVisualQC e componentName imgs contextImages st =
     (logCall (PerformVisualQC componentName imgs contextImages) st,
      visualQC e (length (calls st)) componentName imgs contextImages)"

definition performAssemblyQC ::
  "env \<Rightarrow> string \<Rightarrow> string \<Rightarrow> string list \<Rightarrow> pstate \<Rightarrow> pstate \<times> (string + QCResult)" where
  "performAssemblyQC e planOverview currentPartName imgs st =
     (logCall (PerformAssemblyQC planOverview currentPartName imgs) st,
      assemblyQC e (length (calls st)) planOverview currentPartName imgs)"

subsection \<open>The execution sandbox\<close>

definition executeGeneratedCode ::
  "env \<Rightarrow> string \<Rightarrow> object_store \<Rightarrow> object_store \<times> (string + addr)" where
  "executeGeneratedCode e c h =
     (case runCreatePart e (sanitizeCode c) h of
        (h1, Inl (msg, stack)) \<Rightarrow> (h1, Inl (''Execution Error: '' @ msg @ ''. Stack: '' @ stack))
      | (h1, Inr a) \<Rightarrow> (h1, Inr a))"

definition executeAttachmentCode ::
  "env \<Rightarrow> string \<Rightarrow> addr \<Rightarrow> addr \<Rightarrow> object_store \<Rightarrow> object_store \<times> string option" where
  "executeAttachmentCode e c root_obj part_obj h =
     (case runAttach e (sanitizeCode c) root_obj part_obj h of
        (h1, Some msg) \<Rightarrow> (h1, Some (''Attachment Execution Error: '' @ msg))
      | (h1, None) \<Rightarrow> (h1, None))"

subsection \<open>processComponent\<close>

text \<open>
  The error context of a generation request: the last error log, or else the feedback of
  the most recent QC result when that one did not pass.
\<close>

definition errorContextOf :: "ComponentArtifact \<Rightarrow> string option" where
  "errorContextOf art =
     (let lastError = (if errorLogs art \<noteq> [] then Some (last (errorLogs art)) else None);
          lastFeedback = (if qcHistory art \<noteq> [] \<and> \<not> passed (hd (qcHistory art))
                          then Some (feedback (hd (qcHistory art))) else None)
      in if truthy lastError then lastError else lastFeedback)"

text \<open>
  The body of the \<^verbatim>\<open>try\<close> of one iteration. It returns the state, the artifact and the
  context images as the body leaves them, and either the message thrown or whether the
  component was verified. Step A asks for code when the status is PENDING or FAILED; step B
  resets the stage, runs the code and adds the object; step C captures the snapshots and
  asks for the verdict.
\<close>

definition generationStep ::
  "env \<Rightarrow> string \<Rightarrow> string \<Rightarrow> string list \<Rightarrow> pstate \<Rightarrow> ComponentArtifact \<Rightarrow>
   pstate \<times> ComponentArtifact \<times> string option" where
  "generationStep e cid modelId contextImages st art =
     (if status art = PENDING \<or> status art = FAILED
      then
        let st1 = setPhase (if retryCount art = 0 then GENERATING else FIXING) st;
            errorContext = errorContextOf art
        in case generateComponentCode e (name (plan art)) (description (plan art))
                  (Some (code art)) errorContext contextImages modelId st1 of
             (st2, Inl err) \<Rightarrow> (st2, art, Some err)
           | (st2, Inr c) \<Rightarrow>
               (setComponent cid (art\<lparr>code := c, status := GENERATED\<rparr>) st2,
                art\<lparr>code := c, status := GENERATED\<rparr>, None)
      else (st, art, None))"

definition tryComponent ::
  "env \<Rightarrow> string \<Rightarrow> string \<Rightarrow> pstate \<times> ComponentArtifact \<times> string list \<Rightarrow>
   pstate \<times> ComponentArtifact \<times> string list \<times> (string + bool)" where
  "tryComponent e cid modelId s =
     (case s of (st, art, contextImages) \<Rightarrow>
      case generationStep e cid modelId contextImages st art of
        (st1, art1, Some err) \<Rightarrow> (st1, art1, contextImages, Inl err)
      | (st1, art1, None) \<Rightarrow>
          (case executeGeneratedCode e (code art1) (resetScene (stage st1) (objs st1)) of
             (h2, Inl err) \<Rightarrow> (st1\<lparr>objs := h2\<rparr>, art1, contextImages, Inl err)
           | (h2, Inr object3d) \<Rightarrow>
               let st2 = setPhase QC_ANALYSIS (st1\<lparr>objs := addObject (stage st1) object3d h2\<rparr>)
               in case captureSnapshots e (objs st2) (stage st2) of
                 (Inl err, sg) \<Rightarrow> (st2\<lparr>stage := sg\<rparr>, art1, contextImages, Inl err)
               | (Inr snapshots, sg) \<Rightarrow>
                   (case performVisualQC e (name (plan art1)) snapshots contextImages
                           (st2\<lparr>stage := sg\<rparr>) of
                      (st3, Inl err) \<Rightarrow> (st3, art1, contextImages, Inl err)
                    | (st3, Inr qcResult) \<Rightarrow>
                        let art2 = art1\<lparr>qcHistory := qcResult # qcHistory art1\<rparr> in
                        if passed qcResult
                        then (st3\<lparr>validatedObjects := (validatedObjects st3)(cid \<mapsto> object3d)\<rparr>,
                              art2\<lparr>status := VERIFIED, images := snapshots\<rparr>,
                              (if snapshots \<noteq> [] then contextImages @ [hd snapshots]
                               else contextImages),
                              Inr True)
                        else (st3, art2\<lparr>status := FAILED, retryCount := Suc (retryCount art2)\<rparr>,
                              contextImages, Inr False))))"

text \<open>
  One iteration of the \<^verbatim>\<open>while\<close>: the \<^verbatim>\<open>try\<close>, the \<^verbatim>\<open>catch\<close> (the message is logged in the
  artifact, the status is FAILED, the retry count goes up) and the \<^verbatim>\<open>setComponents\<close> that
  ends it. The last component of the tuple is the local \<^verbatim>\<open>verified\<close>.
\<close>

definition componentAttempt ::
  "env \<Rightarrow> string \<Rightarrow> string \<Rightarrow> pstate \<times> ComponentArtifact \<times> string list \<times> bool \<Rightarrow>
   pstate \<times> ComponentArtifact \<times> string list \<times> bool" where
  "componentAttempt e cid modelId s =
     (case s of (st, art, contextImages, v) \<Rightarrow>
      case tryComponent e cid modelId (st, art, contextImages) of
        (st1, art1, ctx1, Inl err) \<Rightarrow>
          (let art2 = art1\<lparr>errorLogs := errorLogs art1 @ [''Error: '' @ err], status := FAILED,
                           retryCount := Suc (retryCount art1)\<rparr>
           in (setComponent cid art2 st1, art2, ctx1, False))
      | (st1, art1, ctx1, Inr ok) \<Rightarrow> (setComponent cid art1 st1, art1, ctx1, ok))"

lemma componentAttempt_progress:
  "componentAttempt e cid modelId (st, art, ctx, v) = (st', art', ctx', v') \<Longrightarrow>
     (v' \<and> retryCount art' = retryCount art) \<or> (\<not> v' \<and> retryCount art' = Suc (retryCount art))"
  by (auto simp: componentAttempt_def tryComponent_def generationStep_def Let_def
      generateComponentCode_def generateContent_def performVisualQC_def
      split: prod.splits sum.splits option.splits if_splits)

text \<open>The \<^verbatim>\<open>while (!verified && currentArtifact.retryCount < 4)\<close> of \<^verbatim>\<open>processComponent\<close>.\<close>

function processLoop ::
  "env \<Rightarrow> string \<Rightarrow> string \<Rightarrow> pstate \<times> ComponentArtifact \<times> string list \<times> bool \<Rightarrow>
   pstate \<times> ComponentArtifact \<times> string list \<times> bool" where
  "processLoop e cid modelId (st, art, ctx, v) =
     (if \<not> v \<and> retryCount art < 4
      then processLoop e cid modelId (componentAttempt e cid modelId (st, art, ctx, v))
      else (st, art, ctx, v))"
  by pat_completeness auto
termination processLoop
proof (relation "measure (\<lambda>(e, cid, modelId, st, art, ctx, v). if v then 0 else 5 - retryCount art)",
    goal_cases)
  case 1
  then show ?case by simp
next
  case (2 e cid modelId st art ctx v)
  obtain st' art' ctx' v' where r: "componentAttempt e cid modelId (st, art, ctx, v) = (st', art', ctx', v')"
    by (metis prod_cases4)
  show ?case
    using 2 componentAttempt_progress[OF r] unfolding r by auto
qed

declare processLoop.simps [simp del]

text \<open>
  \<^verbatim>\<open>processComponent\<close>: the loop on a copy of the artifact, then the error when the component
  is not verified. The context images are an array the caller shares, so they come back in
  both cases.
\<close>

definition processComponent ::
  "env \<Rightarrow> string \<Rightarrow> ComponentArtifact \<Rightarrow> string list \<Rightarrow> string \<Rightarrow> pstate \<Rightarrow>
   pstate \<times> string list \<times> (string + ComponentArtifact)" where
  "processComponent e cid artifact contextImages modelId st =
     (case processLoop e cid modelId (st, artifact, contextImages, False) of
        (st1, art1, ctx1, v) \<Rightarrow>
          if \<not> v
          then (st1, ctx1, Inl (''Failed to generate stable component '' @ name (plan art1) @
                  '' after maximum retries.''))
          else (st1, ctx1, Inr art1))"

subsection \<open>runPipeline: the component generation loop\<close>

definition initialArtifact :: "ComponentPlan \<Rightarrow> ComponentArtifact" where
  "initialArtifact c = \<lparr>plan = c, code = [], status = PENDING, retryCount = 0,
     qcHistory = [], errorLogs = [], images = []\<rparr>"

text \<open>
  The object \<^verbatim>\<open>initialComponents\<close>, filled by one assignment for each component of the plan.
\<close>

definition initialComponents :: "ComponentPlan list \<Rightarrow> (string \<rightharpoonup> ComponentArtifact)" where
  "initialComponents cs = fold (\<lambda>c m. m(id_c c \<mapsto> initialArtifact c)) cs Map.empty"

text \<open>
  The \<^verbatim>\<open>for\<close> over the components of the plan. Its state is the pipeline state, the local
  \<^verbatim>\<open>pipelineComponents\<close> and the local \<^verbatim>\<open>collectedContextImages\<close>; the loop stops at the first
  error. A missing entry of \<^verbatim>\<open>pipelineComponents\<close> is a TypeError in \<^verbatim>\<open>processComponent\<close>.
\<close>

fun componentLoop ::
  "env \<Rightarrow> string \<Rightarrow> ComponentPlan list \<Rightarrow>
   pstate \<times> (string \<rightharpoonup> ComponentArtifact) \<times> string list \<Rightarrow>
   pstate \<times> (string \<rightharpoonup> ComponentArtifact) \<times> string list \<times> string option" where
  "componentLoop e modelId [] (st, pc, ctx) = (st, pc, ctx, None)"
| "componentLoop e modelId (c # cs) (st, pc, ctx) =
     (case pc (id_c c) of
        None \<Rightarrow> (st, pc, ctx, Some ''TypeError'')
      | Some artifact \<Rightarrow>
          (case processComponent e (id_c c) artifact ctx modelId st of
             (st1, ctx1, Inl err) \<Rightarrow> (st1, pc, ctx1, Some err)
           | (st1, ctx1, Inr processedArtifact) \<Rightarrow>
               componentLoop e modelId cs (st1, pc(id_c c \<mapsto> processedArtifact), ctx1)))"

subsection \<open>runPipeline: the assembly loop\<close>

text \<open>
  The commit: the child list, position, rotation and scale of the draft become those of the
  anchor.
\<close>

definition commit :: "addr \<Rightarrow> addr \<Rightarrow> object_store \<Rightarrow> object_store" where
  "commit rootObject testRoot h =
     (case cells h testRoot of
        None \<Rightarrow> h
      | Some t \<Rightarrow>
          update_obj rootObject (\<lambda>ob. ob\<lparr>children := children t, position := position t,
            rotation := rotation t, scale := scale t\<rparr>) h)"

text \<open>
  The body of the \<^verbatim>\<open>try\<close> of one attachment attempt, up to the verdict. \<^verbatim>\<open>previousCode\<close> is
  \<^verbatim>\<open>undefined\<close>; the error context is the local string, empty at the first attempt.
\<close>

definition tryAttach ::
  "env \<Rightarrow> BuildPlan \<Rightarrow> ComponentPlan \<Rightarrow> ComponentArtifact \<Rightarrow> string \<Rightarrow> addr \<Rightarrow>
   pstate \<Rightarrow> string list \<Rightarrow> string \<Rightarrow> pstate \<times> (string + QCResult \<times> addr \<times> string list)" where
  "tryAttach e pl partComp partArtifact modelId rootObject st currentAssemblySnapshots errorContext =
     (case generateAttachmentCode e (overview pl) (name partComp)
             (description partComp) currentAssemblySnapshots (images partArtifact)
             None (Some errorContext) modelId st of
        (st1, Inl err) \<Rightarrow> (st1, Inl err)
      | (st1, Inr c) \<Rightarrow>
          (case clone rootObject (objs st1) of
             None \<Rightarrow> (st1, Inl ''clone'')
           | Some (h1, testRoot) \<Rightarrow>
               (case validatedObjects st1 (id_c partComp) of
                  None \<Rightarrow> (st1\<lparr>objs := h1\<rparr>, Inl ''TypeError'')
                | Some original \<Rightarrow>
                    (case clone original h1 of
                       None \<Rightarrow> (st1\<lparr>objs := h1\<rparr>, Inl ''clone'')
                     | Some (h2, partObj) \<Rightarrow>
                         (case executeAttachmentCode e c testRoot partObj
                                 (addObject (stage st1) testRoot (resetScene (stage st1) h2)) of
                            (h3, Some err) \<Rightarrow> (st1\<lparr>objs := h3\<rparr>, Inl err)
                          | (h3, None) \<Rightarrow>
                              (case captureSnapshots e h3 (stage st1) of
                                 (Inl err, sg) \<Rightarrow> (st1\<lparr>objs := h3, stage := sg\<rparr>, Inl err)
                               | (Inr testSnapshots, sg) \<Rightarrow>
                                   (case performAssemblyQC e (overview pl) (name partComp)
                                           testSnapshots (st1\<lparr>objs := h3, stage := sg\<rparr>) of
                                      (st2, Inl err) \<Rightarrow> (st2, Inl err)
                                    | (st2, Inr qcResult) \<Rightarrow>
                                        (st2, Inr (qcResult, testRoot, testSnapshots)))))))))"

text \<open>
  The locals of the \<^verbatim>\<open>while\<close> of one part: the snapshots of the current assembly, the error
  context, the retries and whether the part is attached.
\<close>

record attach_state =
  pipeline :: pstate
  currentAssemblySnapshots :: "string list"
  errorContext :: string
  retries :: nat
  attached :: bool

definition attachAttempt ::
  "env \<Rightarrow> BuildPlan \<Rightarrow> ComponentPlan \<Rightarrow> ComponentArtifact \<Rightarrow> string \<Rightarrow> addr \<Rightarrow>
   attach_state \<Rightarrow> attach_state" where
  "attachAttempt e pl partComp partArtifact modelId rootObject s =
     (case tryAttach e pl partComp partArtifact modelId rootObject (pipeline s)
             (currentAssemblySnapshots s) (errorContext s) of
        (st1, Inl err) \<Rightarrow> s\<lparr>pipeline := st1, errorContext := err, retries := Suc (retries s)\<rparr>
      | (st1, Inr (qcResult, testRoot, testSnapshots)) \<Rightarrow>
          if passed qcResult
          then s\<lparr>pipeline := st1\<lparr>objs := commit rootObject testRoot (objs st1)\<rparr>,
                 currentAssemblySnapshots := testSnapshots, attached := True\<rparr>
          else s\<lparr>pipeline := st1, errorContext := feedback qcResult,
                 retries := Suc (retries s)\<rparr>)"

lemma attachAttempt_progress:
  "attached (attachAttempt e pl partComp partArtifact modelId rootObject s) \<or>
   retries (attachAttempt e pl partComp partArtifact modelId rootObject s) = Suc (retries s)"
  by (auto simp: attachAttempt_def split: prod.splits sum.splits)

text \<open>The \<^verbatim>\<open>while (!attached && retries < 4)\<close> of one part.\<close>

function attachLoop ::
  "env \<Rightarrow> BuildPlan \<Rightarrow> ComponentPlan \<Rightarrow> ComponentArtifact \<Rightarrow> string \<Rightarrow> addr \<Rightarrow>
   attach_state \<Rightarrow> attach_state" where
  "attachLoop e pl partComp partArtifact modelId rootObject s =
     (if \<not> attached s \<and> retries s < 4
      then attachLoop e pl partComp partArtifact modelId rootObject
             (attachAttempt e pl partComp partArtifact modelId rootObject s)
      else s)"
  by pat_completeness auto
termination attachLoop
proof (relation "measure (\<lambda>(e, pl, partComp, partArtifact, modelId, rootObject, s).
    if attached s then 0 else 5 - retries s)", goal_cases)
  case 1
  then show ?case by simp
next
  case (2 e pl partComp partArtifact modelId rootObject s)
  then show ?case
    using attachAttempt_progress[of e pl partComp partArtifact modelId rootObject s] by auto
qed

declare attachLoop.simps [simp del]

text \<open>
  One part of the \<^verbatim>\<open>for\<close> over \<^verbatim>\<open>componentsToAttach\<close>: a part without artifact or not VERIFIED
  is passed over; otherwise the loop of attempts runs and, when the part is still not
  attached, the stage is reset and the anchor is added to it again.
\<close>

definition attachPart ::
  "env \<Rightarrow> BuildPlan \<Rightarrow> (string \<rightharpoonup> ComponentArtifact) \<Rightarrow> string \<Rightarrow> addr \<Rightarrow> ComponentPlan \<Rightarrow>
   pstate \<times> string list \<Rightarrow> pstate \<times> string list" where
  "attachPart e pl pc modelId rootObject partComp s =
     (case s of (st, snaps) \<Rightarrow>
      case pc (id_c partComp) of
        None \<Rightarrow> (st, snaps)
      | Some partArtifact \<Rightarrow>
          if status partArtifact \<noteq> VERIFIED then (st, snaps)
          else
            let r = attachLoop e pl partComp partArtifact modelId rootObject
                      \<lparr>pipeline = st, currentAssemblySnapshots = snaps, errorContext = [],
                       retries = 0, attached = False\<rparr>;
                st1 = pipeline r
            in if \<not> attached r
               then (st1\<lparr>objs := addObject (stage st1) rootObject
                                   (resetScene (stage st1) (objs st1))\<rparr>,
                     currentAssemblySnapshots r)
               else (st1, currentAssemblySnapshots r))"

definition attachParts ::
  "env \<Rightarrow> BuildPlan \<Rightarrow> (string \<rightharpoonup> ComponentArtifact) \<Rightarrow> string \<Rightarrow> addr \<Rightarrow>
   ComponentPlan list \<Rightarrow> pstate \<times> string list \<Rightarrow> pstate \<times> string list" where
  "attachParts e pl pc modelId rootObject componentsToAttach s =
     fold (attachPart e pl pc modelId rootObject) componentsToAttach s"

text \<open>
  The anchor is moved so that the centre of its box is the origin and shown on the stage,
  and the first snapshots of the assembly are taken. A capture that throws is an error of
  the run.
\<close>

definition placeAnchor ::
  "env \<Rightarrow> addr \<Rightarrow> pstate \<Rightarrow> object_store \<Rightarrow> pstate \<times> (string + string list)" where
  "placeAnchor e rootObject st h1 =
     (let center = (case boundingBox e h1 rootObject of
                      None \<Rightarrow> (0, 0, 0)
                    | Some (lo, hi) \<Rightarrow> vscale (1 / 2) (vadd lo hi));
          h2 = update_obj rootObject (\<lambda>ob. ob\<lparr>position := vsub (position ob) center\<rparr>) h1;
          h3 = addObject (stage st) rootObject (resetScene (stage st) h2)
      in case captureSnapshots e h3 (stage st) of
           (res, sg) \<Rightarrow> (st\<lparr>objs := h3, stage := sg\<rparr>, res))"

text \<open>
  The assembly phase: the sequencer, the anchor (a clone of the object of the first
  component), the loop over the other components, and COMPLETED. An empty sequence, a
  first component without object, a clone that fails and a first capture that throws are
  the errors the outer \<^verbatim>\<open>catch\<close> takes.
\<close>

definition assemble ::
  "env \<Rightarrow> BuildPlan \<Rightarrow> (string \<rightharpoonup> ComponentArtifact) \<Rightarrow> string \<Rightarrow> pstate \<Rightarrow> pstate \<times> string option" where
  "assemble e pl pc modelId st =
     (let st1 = setPhase ASSEMBLING st in
      case sortComponentsTopologically (components pl) of
        [] \<Rightarrow> (st1, Some ''No components to assemble'')
      | rootComp # componentsToAttach \<Rightarrow>
          (case validatedObjects st1 (id_c rootComp) of
             None \<Rightarrow> (st1, Some ''TypeError'')
           | Some original \<Rightarrow>
               (case clone original (objs st1) of
                  None \<Rightarrow> (st1, Some ''clone'')
                | Some (h1, rootObject) \<Rightarrow>
                    (case placeAnchor e rootObject st1 h1 of
                       (st2, Inl err) \<Rightarrow> (st2, Some err)
                     | (st2, Inr snaps) \<Rightarrow>
                         (case attachParts e pl pc modelId rootObject componentsToAttach
                                 (st2, snaps) of
                            (st3, snaps3) \<Rightarrow> (setPhase COMPLETED st3, None))))))"

subsection \<open>runPipeline\<close>

text \<open>
  A run, from \<^verbatim>\<open>setPhase(AppPhase.PLANNING)\<close> on (before it, an empty prompt or a used-up quota
  return without a run). The local \<^verbatim>\<open>pipelineComponents\<close> is a spread copy of
  \<^verbatim>\<open>initialComponents\<close>. The \<^verbatim>\<open>catch\<close> sets the phase ERROR.
\<close>

definition startRun :: "string \<Rightarrow> string \<Rightarrow> pstate \<Rightarrow> pstate" where
  "startRun prompt modelId st0 =
     logCall (GenerateBuildPlan prompt modelId)
       ((setPhase PLANNING (st0\<lparr>phaseLog := [], calls := []\<rparr>))
          \<lparr>componentsUI := Map.empty, validatedObjects := Map.empty,
           objs := resetScene (stage st0) (objs st0)\<rparr>)"

definition acceptPlan :: "BuildPlan \<Rightarrow> pstate \<Rightarrow> pstate" where
  "acceptPlan pl st = st\<lparr>componentsUI := initialComponents (components pl)\<rparr>"

definition runPipeline :: "env \<Rightarrow> string \<Rightarrow> string \<Rightarrow> pstate \<Rightarrow> pstate" where
  "runPipeline e prompt modelId st0 =
     (case planOracle e prompt modelId of
        Inl err \<Rightarrow> setPhase ERROR (startRun prompt modelId st0)
      | Inr pl \<Rightarrow>
          (case componentLoop e modelId (components pl)
                  (acceptPlan pl (startRun prompt modelId st0),
                   spread (initialComponents (components pl)), []) of
             (st3, pc, ctx, Some err) \<Rightarrow> setPhase ERROR st3
           | (st3, pc, ctx, None) \<Rightarrow>
               (case assemble e pl pc modelId st3 of
                  (st4, Some err) \<Rightarrow> setPhase ERROR st4
                | (st4, None) \<Rightarrow> st4)))"

text \<open>
  The state of the \<^verbatim>\<open>while\<close> of \<^verbatim>\<open>processComponent\<close> is read through \<open>artifactOf\<close> and
  \<open>verifiedOf\<close>; \<open>loopStep\<close> is one turn of the loop: an attempt while the guard holds,
  nothing after.
\<close>

definition artifactOf :: "pstate \<times> ComponentArtifact \<times> string list \<times> bool \<Rightarrow> ComponentArtifact" where
  "artifactOf s = fst (snd s)"

definition verifiedOf :: "pstate \<times> ComponentArtifact \<times> string list \<times> bool \<Rightarrow> bool" where
  "verifiedOf s = snd (snd (snd s))"

definition loopStep ::
  "env \<Rightarrow> string \<Rightarrow> string \<Rightarrow> pstate \<times> ComponentArtifact \<times> string list \<times> bool \<Rightarrow>
   pstate \<times> ComponentArtifact \<times> string list \<times> bool" where
  "loopStep e cid modelId s =
     (if \<not> verifiedOf s \<and> retryCount (artifactOf s) < 4
      then componentAttempt e cid modelId s else s)"

subsection \<open>What generated code can reach\<close>

text \<open>
  The objects an object points to are its children and its parent. From the references it
  is given, code can reach the objects that pointers lead to, and no others.
\<close>

definition ptrs :: "object3d \<Rightarrow> addr set" where
  "ptrs ob = set (children ob) \<union> set_option (parent ob)"

definition edges :: "object_store \<Rightarrow> (addr \<times> addr) set" where
  "edges h = {(a, b). \<exists>ob. cells h a = Some ob \<and> b \<in> ptrs ob}"

definition reach :: "object_store \<Rightarrow> addr set \<Rightarrow> addr set" where
  "reach h R = (edges h)\<^sup>* `` R"

definition fresh :: "object_store \<Rightarrow> object_store \<Rightarrow> addr set" where
  "fresh h h' = {nxt h ..< nxt h'}"

text \<open>
  The attachment code is confined: run on a root and a part, it destroys no object, it
  changes only objects it can reach from them and objects it creates, and the pointers it
  leaves in those lead only to such objects. This is what a JavaScript function can do that is given two
  objects and a library which holds no reference to the scene.
\<close>

definition attach_confined :: "env \<Rightarrow> bool" where
  "attach_confined e \<longleftrightarrow>
     (\<forall>c r p h. case runAttach e c r p h of
        (h', res) \<Rightarrow>
          nxt h \<le> nxt h' \<and>
          (\<forall>a. cells h a \<noteq> None \<longrightarrow> cells h' a \<noteq> None) \<and>
          (\<forall>a. a \<notin> reach h {r, p} \<union> fresh h h' \<longrightarrow> cells h' a = cells h a) \<and>
          (\<forall>a \<in> reach h {r, p} \<union> fresh h h'. \<forall>ob. cells h' a = Some ob \<longrightarrow>
             ptrs ob \<subseteq> reach h {r, p} \<union> fresh h h'))"

text \<open>
  A set of objects is closed when no pointer leads out of it. The stage is isolated by a
  set \<open>S\<close> of existing objects that holds its group and is closed but for the children
  of the group, which exist. The anchor is isolated when it exists, its parent is the
  group or none, and some set that isolates the stage does not hold it.
\<close>

definition closed :: "object_store \<Rightarrow> addr set \<Rightarrow> bool" where
  "closed h S \<longleftrightarrow> (\<forall>a \<in> S. \<forall>ob. cells h a = Some ob \<longrightarrow> ptrs ob \<subseteq> S)"

definition stage_isolated :: "addr \<Rightarrow> object_store \<Rightarrow> addr set \<Rightarrow> bool" where
  "stage_isolated g h S \<longleftrightarrow>
     g \<in> S \<and> S \<subseteq> {..< nxt h} \<and>
     (\<exists>go. cells h g = Some go \<and> set (children go) \<subseteq> {..< nxt h}) \<and>
     (\<forall>a \<in> S. \<forall>ob. cells h a = Some ob \<longrightarrow>
        set_option (parent ob) \<subseteq> S \<and> (a \<noteq> g \<longrightarrow> set (children ob) \<subseteq> S))"

definition anchor_isolated :: "addr \<Rightarrow> addr \<Rightarrow> object_store \<Rightarrow> bool" where
  "anchor_isolated g r h \<longleftrightarrow>
     r < nxt h \<and>
     (\<exists>ro. cells h r = Some ro \<and> (parent ro = None \<or> parent ro = Some g)) \<and>
     (\<exists>S. stage_isolated g h S \<and> r \<notin> S)"

text \<open>What a commit writes to the anchor: child list, position, rotation and scale.\<close>

definition anchorState ::
  "addr \<Rightarrow> object_store \<Rightarrow> (addr list \<times> vec3 \<times> vec3 \<times> vec3) option" where
  "anchorState r h =
     map_option (\<lambda>ob. (children ob, position ob, rotation ob, scale ob)) (cells h r)"

text \<open>
  What resetting the stage and adding an object to the group may do to the store: positions,
  rotations and scales stay, a parent stays or becomes none or the group, and child lists
  stay but for the one of the group.
\<close>

definition stage_change :: "addr \<Rightarrow> object_store \<Rightarrow> object_store \<Rightarrow> bool" where
  "stage_change g h h' \<longleftrightarrow>
     nxt h' = nxt h \<and>
     (\<forall>x. cells h x = None \<longrightarrow> cells h' x = None) \<and>
     (\<forall>x ob. cells h x = Some ob \<longrightarrow>
          (\<exists>ob'. cells h' x = Some ob' \<and> position ob' = position ob \<and>
             rotation ob' = rotation ob \<and> scale ob' = scale ob \<and>
             (parent ob' = parent ob \<or> parent ob' = None \<or> parent ob' = Some g) \<and>
             (x \<noteq> g \<longrightarrow> children ob' = children ob)))"

text \<open>
  The condition under which the assembly loop runs: the stage is mounted and the anchor is
  isolated from it.
\<close>

definition anchor_kept :: "addr \<Rightarrow> pstate \<Rightarrow> bool" where
  "anchor_kept r st \<longleftrightarrow>
     initialized (stage st) \<and> anchor_isolated (rootGroup (stage st)) r (objs st)"



text \<open>
  The requests to the code model among a list of calls are all requests of
  \<^verbatim>\<open>generateComponentCode\<close> for the given component, with the given context images.
\<close>

definition requests_carry :: "string \<Rightarrow> string \<Rightarrow> string list \<Rightarrow> string \<Rightarrow> call list \<Rightarrow> bool" where
  "requests_carry nm ds ctx modelId cl \<longleftrightarrow>
     (\<forall>r. GenerateContent r \<in> set cl \<longrightarrow>
        (\<exists>p ec. r = componentRequest nm ds p ec ctx modelId))"

text \<open>
  An environment, a plan and a state to run the pipeline on: a lamp of two components, code
  that builds one object, attachment code that adds the part to the root, a judge who
  passes every component but the shade, and a stage whose group is object 0.
\<close>

definition demo_plan :: BuildPlan where
  "demo_plan = \<lparr>overview = ''a lamp'',
     components = [mkComponent ''base'' [], mkComponent ''shade'' [''base'']]\<rparr>"

definition demo_env :: env where
  "demo_env = \<lparr>
     planOracle = (\<lambda>prompt modelId. Inr demo_plan),
     codeOracle = (\<lambda>n request. Inr ''export const part = 1''),
     visualQC = (\<lambda>n componentName imgs ctx.
        Inr \<lparr>passed = (componentName \<noteq> ''shade''), feedback = ''too flat'', score = 40\<rparr>),
     assemblyQC = (\<lambda>n ov partName imgs.
        Inr \<lparr>passed = False, feedback = ''move it up'', score = 10\<rparr>),
     runCreatePart = (\<lambda>c h. case alloc (newObject (0, 0, 0)) h of (h1, a) \<Rightarrow> (h1, Inr a)),
     runAttach = (\<lambda>c r p h. (add_child r p h, None)),
     render = (\<lambda>h sg. Inr ''png''),
     boundingBox = (\<lambda>h a. None)\<rparr>"

definition demo_stage :: stage_handle where
  "demo_stage = \<lparr>initialized = True, rootGroup = 0, cameraPosition = (5, 5, 5),
     cameraTarget = (0, 0, 0), cameraNear = 0.1, cameraFar = 1000, cameraFov = 45,
     controlsTarget = Some (0, 0, 0), background = ''#111111'', gridVisible = Some True\<rparr>"


definition demo_state :: pstate where
  "demo_state =
     \<lparr>phase = IDLE, phaseLog = [], componentsUI = Map.empty, validatedObjects = Map.empty,
      objs = \<lparr>cells = (\<lambda>a. None)(0 \<mapsto> newObject (0, 0, 0)), nxt = 1\<rparr>,
      stage = demo_stage, calls = []\<rparr>"

text \<open>
  A state at the start of the assembly: the stage group is object 0, the objects of the two
  components are 1 and 2, and the one built last is shown on the stage.
\<close>

definition demo_assembly :: pstate where
  "demo_assembly =
     \<lparr>phase = GENERATING, phaseLog = [PLANNING, GENERATING], componentsUI = Map.empty,
      validatedObjects = [''base'' \<mapsto> 1, ''shade'' \<mapsto> 2],
      objs = \<lparr>cells = (\<lambda>a. None)(0 \<mapsto> (newObject (0, 0, 0))\<lparr>children := [2]\<rparr>,
                                   1 \<mapsto> newObject (0, 0, 0),
                                   2 \<mapsto> (newObject (0, 0, 0))\<lparr>parent := Some 0\<rparr>),
               nxt = 3\<rparr>,
      stage = demo_stage, calls = []\<rparr>"

definition demo_artifacts :: "string \<rightharpoonup> ComponentArtifact" where
  "demo_artifacts =
     [''base'' \<mapsto> (initialArtifact (mkComponent ''base'' []))\<lparr>status := VERIFIED\<rparr>,
      ''shade'' \<mapsto> (initialArtifact (mkComponent ''shade'' [''base'']))\<lparr>status := VERIFIED\<rparr>]"

subsection \<open>Correctness of the sequencer\<close>

lemma dep_edgesI:
  "c \<in> set cs \<Longrightarrow> d \<in> set (dependencies c) \<Longrightarrow> (id_c c, d) \<in> dep_edges cs"
  by (auto simp: dep_edges_def)

lemma seq_inv_tempVisited [simp]:
  "seq_inv cs (st\<lparr>tempVisited := T\<rparr>) = seq_inv cs st"
  by (simp add: seq_inv_def)

lemma ordered_at_append:
  "j < length S \<Longrightarrow> ordered_at cs (S @ [node]) j = ordered_at cs S j"
  unfolding ordered_at_def by (simp add: nth_append cong: conj_cong)

lemma ordered_at_last:
  assumes "\<forall>d \<in> set (dependencies node). d \<in> set (map id_c cs) \<longrightarrow>
        d \<in> id_c ` set S \<or> (d, id_c node) \<in> (dep_edges cs)\<^sup>+"
  shows "ordered_at cs (S @ [node]) (length S)"
  unfolding ordered_at_def
proof (intro ballI impI)
  fix d
  assume d: "d \<in> set (dependencies ((S @ [node]) ! length S))" and din: "d \<in> set (map id_c cs)"
  then have "d \<in> id_c ` set S \<or> (d, id_c node) \<in> (dep_edges cs)\<^sup>+"
    using assms by simp
  then show "(\<exists>i<length S. id_c ((S @ [node]) ! i) = d) \<or>
         (d, id_c ((S @ [node]) ! length S)) \<in> (dep_edges cs)\<^sup>+"
  proof
    assume "d \<in> id_c ` set S"
    then obtain i where "i < length S" "id_c (S ! i) = d"
      by (auto simp: in_set_conv_nth)
    then have "i < length S \<and> id_c ((S @ [node]) ! i) = d"
      by (simp add: nth_append)
    then show ?thesis by blast
  next
    assume "(d, id_c node) \<in> (dep_edges cs)\<^sup>+"
    then show ?thesis by simp
  qed
qed

lemma seq_inv_push:
  assumes inv: "seq_inv cs st2"
    and found: "find (\<lambda>c. id_c c = n) cs = Some node"
    and fresh: "n \<notin> visited st2"
    and deps: "\<forall>d \<in> set (dependencies node). d \<in> set (map id_c cs) \<longrightarrow>
        d \<in> visited st2 \<or> (d, n) \<in> (dep_edges cs)\<^sup>+"
  shows "seq_inv cs (st2\<lparr>visited := insert n (visited st2), sorted := sorted st2 @ [node]\<rparr>)"
proof -
  let ?S = "sorted st2"
  have idn: "id_c node = n"
    using found by (auto simp: find_Some_iff)
  have V: "visited st2 = id_c ` set ?S" and D: "distinct (map id_c ?S)"
    and F: "\<forall>c \<in> set ?S. find (\<lambda>x. id_c x = id_c c) cs = Some c"
    and O: "\<forall>j < length ?S. ordered_at cs ?S j"
    using inv unfolding seq_inv_def by simp_all
  have last: "ordered_at cs (?S @ [node]) (length ?S)"
    using deps unfolding V idn[symmetric] by (rule ordered_at_last)
  have O': "\<forall>j < length (?S @ [node]). ordered_at cs (?S @ [node]) j"
  proof (intro allI impI)
    fix j assume "j < length (?S @ [node])"
    then have "j < length ?S \<or> j = length ?S" by auto
    then show "ordered_at cs (?S @ [node]) j"
      using O last by (auto simp: ordered_at_append)
  qed
  have "distinct (map id_c (?S @ [node]))"
    using D fresh V idn by simp
  moreover have "\<forall>c \<in> set (?S @ [node]). find (\<lambda>x. id_c x = id_c c) cs = Some c"
    using F found idn by simp
  moreover have "insert n (visited st2) = id_c ` set (?S @ [node])"
    using V idn by simp
  ultimately show ?thesis
    unfolding seq_inv_def using O' by simp
qed

lemma visit_correct:
  "seq_inv cs st \<Longrightarrow> (\<forall>x \<in> in_progress cs st. (x, n) \<in> (dep_edges cs)\<^sup>+) \<Longrightarrow>
     seq_inv cs (visit cs n st) \<and> in_progress cs (visit cs n st) = in_progress cs st \<and>
     visited st \<subseteq> visited (visit cs n st) \<and>
     (n \<in> set (map id_c cs) \<longrightarrow> n \<in> visited (visit cs n st) \<or> n \<in> in_progress cs st)"
  "seq_inv cs st \<Longrightarrow> (\<forall>d \<in> set ds. \<forall>x \<in> in_progress cs st. (x, d) \<in> (dep_edges cs)\<^sup>+) \<Longrightarrow>
     seq_inv cs (visit_each cs ds st) \<and> in_progress cs (visit_each cs ds st) = in_progress cs st \<and>
     visited st \<subseteq> visited (visit_each cs ds st) \<and>
     (\<forall>d \<in> set ds. d \<in> set (map id_c cs) \<longrightarrow> d \<in> visited (visit_each cs ds st) \<or> d \<in> in_progress cs st)"
proof (induction cs n st and cs ds st rule: visit_visit_each.induct)
  case (1 cs nodeId st)
  show ?case
  proof (cases "nodeId \<in> visited st \<or> nodeId \<in> tempVisited st")
    case True
    then have "visit cs nodeId st = st"
      by (auto simp: visit.simps)
    then show ?thesis
      using 1(2) True by (auto simp: in_progress_def)
  next
    case False
    define st1 where "st1 = st\<lparr>tempVisited := insert nodeId (tempVisited st)\<rparr>"
    show ?thesis
    proof (cases "find (\<lambda>c. id_c c = nodeId) cs")
      case None
      then have v: "visit cs nodeId st = st1"
        using False by (simp add: visit.simps st1_def)
      have "nodeId \<notin> set (map id_c cs)"
        using None by (auto simp: find_None_iff)
      then show ?thesis
        using 1(2) unfolding v st1_def by (auto simp: in_progress_def)
    next
      case (Some node)
      define st2 where "st2 = visit_each cs (dependencies node) st1"
      have v: "visit cs nodeId st = st2\<lparr>visited := insert nodeId (visited st2), sorted := sorted st2 @ [node]\<rparr>"
        using False Some by (simp add: visit.simps st1_def st2_def Let_def)
      have node: "node \<in> set cs" "id_c node = nodeId"
        using Some by (auto simp: find_Some_iff in_set_conv_nth)
      have p1: "in_progress cs st1 = insert nodeId (in_progress cs st)"
        using node False by (auto simp: in_progress_def st1_def)
      have e: "(nodeId, d) \<in> dep_edges cs" if "d \<in> set (dependencies node)" for d
        using that node by (auto simp: dep_edges_def)
      have pre: "\<forall>d \<in> set (dependencies node). \<forall>x \<in> in_progress cs st1. (x, d) \<in> (dep_edges cs)\<^sup>+"
        using 1(3) e unfolding p1 by (auto intro: trancl_into_trancl)
      have inv1: "seq_inv cs st1"
        using 1(2) by (simp add: st1_def)
      have IH: "seq_inv cs st2" "in_progress cs st2 = in_progress cs st1" "visited st1 \<subseteq> visited st2"
        "\<forall>d \<in> set (dependencies node). d \<in> set (map id_c cs) \<longrightarrow> d \<in> visited st2 \<or> d \<in> in_progress cs st1"
        using 1(1)[OF _ _ st1_def Some inv1 pre] False unfolding st2_def by auto
      have fresh: "nodeId \<notin> visited st2"
        using IH(2) p1 by (auto simp: in_progress_def)
      have deps: "\<forall>d \<in> set (dependencies node). d \<in> set (map id_c cs) \<longrightarrow>
          d \<in> visited st2 \<or> (d, nodeId) \<in> (dep_edges cs)\<^sup>+"
        using IH(4) 1(3) e unfolding p1 by auto
      have "seq_inv cs (visit cs nodeId st)"
        unfolding v using IH(1) Some fresh deps by (rule seq_inv_push)
      moreover have "in_progress cs (visit cs nodeId st) = in_progress cs st"
        using IH(2) p1 False unfolding v by (auto simp: in_progress_def)
      moreover have "visited st \<subseteq> visited (visit cs nodeId st)"
        using IH(3) unfolding v st1_def by auto
      moreover have "nodeId \<in> visited (visit cs nodeId st)"
        unfolding v by simp
      ultimately show ?thesis by blast
    qed
  qed
next
  case (2 cs st)
  then show ?case by simp
next
  case (3 cs depId rest st)
  have a: "seq_inv cs (visit cs depId st)" "in_progress cs (visit cs depId st) = in_progress cs st"
    "visited st \<subseteq> visited (visit cs depId st)"
    "depId \<in> set (map id_c cs) \<longrightarrow> depId \<in> visited (visit cs depId st) \<or> depId \<in> in_progress cs st"
    using 3(1)[OF 3(3)] 3(4) by auto
  have b: "seq_inv cs (visit_each cs rest (visit cs depId st))"
    "in_progress cs (visit_each cs rest (visit cs depId st)) = in_progress cs (visit cs depId st)"
    "visited (visit cs depId st) \<subseteq> visited (visit_each cs rest (visit cs depId st))"
    "\<forall>d \<in> set rest. d \<in> set (map id_c cs) \<longrightarrow>
        d \<in> visited (visit_each cs rest (visit cs depId st)) \<or> d \<in> in_progress cs (visit cs depId st)"
    using 3(2)[OF a(1)] 3(4) a(2) by auto
  show ?case
    using a b by auto
qed


lemma sort_final:
  "seq_inv cs (visit_each cs (map id_c cs) \<lparr>visited = {}, sorted = [], tempVisited = {}\<rparr>) \<and>
   set (map id_c cs) \<subseteq> visited (visit_each cs (map id_c cs) \<lparr>visited = {}, sorted = [], tempVisited = {}\<rparr>)"
proof -
  let ?st0 = "\<lparr>visited = {}, sorted = [], tempVisited = {}\<rparr>"
  have inv0: "seq_inv cs ?st0"
    by (simp add: seq_inv_def)
  have p0: "in_progress cs ?st0 = {}"
    by (simp add: in_progress_def)
  have pre: "\<forall>d \<in> set (map id_c cs). \<forall>x \<in> in_progress cs ?st0. (x, d) \<in> (dep_edges cs)\<^sup>+"
    unfolding p0 by simp
  show ?thesis
    using visit_correct(2)[OF inv0 pre] unfolding p0 by auto
qed

lemma find_unique:
  "distinct (map id_c cs) \<Longrightarrow> c \<in> set cs \<Longrightarrow> find (\<lambda>x. id_c x = id_c c) cs = Some c"
  by (induction cs) auto

lemma sort_members:
  assumes "distinct (map id_c cs)"
  shows "set (sortComponentsTopologically cs) = set cs"
    and "distinct (sortComponentsTopologically cs)"
    and "\<forall>j < length (sortComponentsTopologically cs).
           ordered_at cs (sortComponentsTopologically cs) j"
proof -
  let ?st = "visit_each cs (map id_c cs) \<lparr>visited = {}, sorted = [], tempVisited = {}\<rparr>"
  have out: "sortComponentsTopologically cs = sorted ?st"
    by (simp add: sortComponentsTopologically_def)
  have V: "visited ?st = id_c ` set (sorted ?st)" and D: "distinct (map id_c (sorted ?st))"
    and F: "\<forall>c \<in> set (sorted ?st). find (\<lambda>x. id_c x = id_c c) cs = Some c"
    and O: "\<forall>j < length (sorted ?st). ordered_at cs (sorted ?st) j"
    and A: "set (map id_c cs) \<subseteq> visited ?st"
    using sort_final[of cs] unfolding seq_inv_def by blast+
  have sub: "set (sorted ?st) \<subseteq> set cs"
  proof
    fix c assume "c \<in> set (sorted ?st)"
    then have "find (\<lambda>x. id_c x = id_c c) cs = Some c" using F by blast
    then show "c \<in> set cs" by (auto simp: find_Some_iff)
  qed
  have sup: "set cs \<subseteq> set (sorted ?st)"
  proof
    fix c assume c: "c \<in> set cs"
    then have "id_c c \<in> visited ?st" using A by auto
    then obtain c' where c': "c' \<in> set (sorted ?st)" "id_c c' = id_c c"
      unfolding V by auto
    then have "find (\<lambda>x. id_c x = id_c c) cs = Some c'" using F by force
    then have "c' = c" using find_unique[OF assms c] by simp
    then show "c \<in> set (sorted ?st)" using c' by simp
  qed
  show "set (sortComponentsTopologically cs) = set cs"
    unfolding out using sub sup by blast
  show "distinct (sortComponentsTopologically cs)"
    unfolding out using D by (rule distinct_map[THEN iffD1, THEN conjunct1])
  show "\<forall>j < length (sortComponentsTopologically cs).
           ordered_at cs (sortComponentsTopologically cs) j"
    unfolding out using O .
qed

lemma sort_plan_star:
  "sortComponentsTopologically plan_star =
     [mkComponent ''A'' [], mkComponent ''B'' [''A''], mkComponent ''C'' [''A'']]"
  by (simp add: plan_star_def sortComponentsTopologically_def visit.simps mkComponent_def Let_def)

lemma sort_plan_cycle:
  "sortComponentsTopologically plan_cycle =
     [mkComponent ''B'' [''A''], mkComponent ''A'' [''B'', ''ghost'']]"
  by (simp add: plan_cycle_def sortComponentsTopologically_def visit.simps mkComponent_def Let_def)

text \<open>
  Claim C3 (sequencer ordering). In a plan (its ids are unique, the invariant of the data
  model) whose dependency graph is acyclic, whenever the id of a component \<open>d\<close> of the plan is
  among the dependencies of a component \<open>c\<close> of the plan, the index of \<open>d\<close> in the output of
  \<^verbatim>\<open>sortComponentsTopologically\<close> is strictly less than the index of \<open>c\<close>: the output has no
  component twice, \<open>d\<close> and \<open>c\<close> stand in it, and wherever they stand, \<open>d\<close> stands first.
\<close>

theorem sequencer_order:
  assumes ids: "distinct (map id_c cs)" and acyc: "acyclic (dep_edges cs)"
    and c: "c \<in> set cs" and d: "d \<in> set cs" and dep: "id_c d \<in> set (dependencies c)"
  shows "distinct (sortComponentsTopologically cs) \<and>
         (\<exists>i j. i < j \<and> j < length (sortComponentsTopologically cs) \<and>
           sortComponentsTopologically cs ! i = d \<and> sortComponentsTopologically cs ! j = c) \<and>
         (\<forall>i j. i < length (sortComponentsTopologically cs) \<and>
                j < length (sortComponentsTopologically cs) \<and>
                sortComponentsTopologically cs ! i = d \<and> sortComponentsTopologically cs ! j = c
                \<longrightarrow> i < j)"
proof -
  let ?out = "sortComponentsTopologically cs"
  have dist: "distinct ?out"
    by (rule sort_members(2)[OF ids])
  have "c \<in> set ?out"
    using sort_members(1)[OF ids] c by simp
  then obtain j where j: "j < length ?out" "?out ! j = c"
    by (auto simp: in_set_conv_nth)
  have "ordered_at cs ?out j"
    using sort_members(3)[OF ids] j(1) by blast
  moreover have "id_c d \<in> set (map id_c cs)"
    using d by simp
  ultimately have "(\<exists>i < j. id_c (?out ! i) = id_c d) \<or> (id_c d, id_c c) \<in> (dep_edges cs)\<^sup>+"
    using dep j(2) unfolding ordered_at_def by blast
  moreover have "(id_c d, id_c c) \<notin> (dep_edges cs)\<^sup>+"
  proof
    assume rev: "(id_c d, id_c c) \<in> (dep_edges cs)\<^sup>+"
    have "(id_c c, id_c d) \<in> dep_edges cs"
      using c dep by (auto simp: dep_edges_def)
    then have "(id_c c, id_c c) \<in> (dep_edges cs)\<^sup>+"
      using rev by (rule trancl_into_trancl2)
    then show False
      using acyc by (simp add: acyclic_def)
  qed
  ultimately obtain i where i: "i < j" "id_c (?out ! i) = id_c d"
    by blast
  have "?out ! i \<in> set cs"
    using sort_members(1)[OF ids] i(1) j(1) by (metis less_trans nth_mem)
  then have i': "?out ! i = d"
    using ids d i(2) by (meson distinct_map inj_onD)
  have ex: "\<exists>i j. i < j \<and> j < length ?out \<and> ?out ! i = d \<and> ?out ! j = c"
    using i(1) i' j by blast
  have "i' < j'" if "i' < length ?out" "j' < length ?out" "?out ! i' = d" "?out ! j' = c"
    for i' j'
  proof -
    have il: "i < length ?out" using i(1) j(1) by simp
    have "?out ! i' = ?out ! i" using that(3) i' by simp
    then have "i' = i"
      using nth_eq_iff_index_eq[OF dist that(1) il] by simp
    moreover have "?out ! j' = ?out ! j" using that(4) j(2) by simp
    then have "j' = j"
      using nth_eq_iff_index_eq[OF dist that(2) j(1)] by simp
    ultimately show ?thesis using i(1) by simp
  qed
  then show ?thesis
    using dist ex by blast
qed

theorem sequencer_order_witness:
  "distinct (sortComponentsTopologically plan_star) \<and>
   (\<exists>i j. i < j \<and> j < length (sortComponentsTopologically plan_star) \<and>
     sortComponentsTopologically plan_star ! i = mkComponent ''A'' [] \<and>
     sortComponentsTopologically plan_star ! j = mkComponent ''B'' [''A''])"
proof -
  have "(a, b) \<in> dep_edges plan_star \<Longrightarrow>
      (if b = ''A'' then 0 else 1::nat) < (if a = ''A'' then 0 else 1)" for a b
    by (auto simp: dep_edges_def plan_star_def mkComponent_def)
  then have acyc: "acyclic (dep_edges plan_star)"
    by (rule acyclicI_order)
  have ids: "distinct (map id_c plan_star)"
    by (simp add: plan_star_def mkComponent_def)
  have "mkComponent ''B'' [''A''] \<in> set plan_star" "mkComponent ''A'' [] \<in> set plan_star"
    "id_c (mkComponent ''A'' []) \<in> set (dependencies (mkComponent ''B'' [''A'']))"
    by (simp_all add: plan_star_def mkComponent_def)
  from sequencer_order[OF ids acyc this] show ?thesis
    by blast
qed

text \<open>
  Claim C4 (sequencer tolerance). For every component list with unique ids, cyclic or with
  dangling dependency ids or not, \<^verbatim>\<open>sortComponentsTopologically\<close> returns (the traversal is a
  total function, its termination proved above, and it has no failing branch) and its output
  has every input component exactly once: the same set, no repetition, the same length.
\<close>

theorem sequencer_tolerant:
  assumes "distinct (map id_c cs)"
  shows "distinct (sortComponentsTopologically cs) \<and>
         set (sortComponentsTopologically cs) = set cs \<and>
         length (sortComponentsTopologically cs) = length cs"
proof -
  have s: "set (sortComponentsTopologically cs) = set cs"
    and d: "distinct (sortComponentsTopologically cs)"
    using sort_members[OF assms] by simp_all
  have "distinct cs"
    using assms by (simp add: distinct_map)
  then have "length (sortComponentsTopologically cs) = length cs"
    using s d by (metis distinct_card)
  then show ?thesis using s d by simp
qed

theorem sequencer_tolerant_witness:
  "distinct (sortComponentsTopologically plan_cycle) \<and>
   set (sortComponentsTopologically plan_cycle) = set plan_cycle \<and>
   length (sortComponentsTopologically plan_cycle) = length plan_cycle \<and>
   (''A'', ''A'') \<in> (dep_edges plan_cycle)\<^sup>+ \<and>
   ''ghost'' \<in> set (dependencies (plan_cycle ! 0)) - id_c ` set plan_cycle"
proof -
  have ids: "distinct (map id_c plan_cycle)"
    by (simp add: plan_cycle_def mkComponent_def)
  have "(''A'', ''B'') \<in> dep_edges plan_cycle"
    using dep_edgesI[of "mkComponent ''A'' [''B'', ''ghost'']" plan_cycle "''B''"]
    by (simp add: plan_cycle_def mkComponent_def)
  moreover have "(''B'', ''A'') \<in> dep_edges plan_cycle"
    using dep_edgesI[of "mkComponent ''B'' [''A'']" plan_cycle "''A''"]
    by (simp add: plan_cycle_def mkComponent_def)
  ultimately have "(''A'', ''B'') \<in> dep_edges plan_cycle \<and> (''B'', ''A'') \<in> dep_edges plan_cycle"
    by simp
  then have "(''A'', ''A'') \<in> (dep_edges plan_cycle)\<^sup>+"
    by (meson trancl.simps)
  moreover have "''ghost'' \<in> set (dependencies (plan_cycle ! 0)) - id_c ` set plan_cycle"
    by (simp add: plan_cycle_def mkComponent_def)
  ultimately show ?thesis
    using sequencer_tolerant[OF ids] by simp
qed

subsection \<open>The sanitizer\<close>

lemmas rx_defs = rx_export_def rx_export_default_def rx_export_default_function_def
  rx_import_from_def rx_import_from_semi_def rx_fence_def lit_def isSpace_def
  isLineTerminator_def

lemma replaceAll_no_match: "\<not> occurs pat s \<Longrightarrow> replaceAll pat rep s = s"
proof (induction s)
  case Nil
  then show ?case by (cases "matchHere pat []") auto
next
  case (Cons a s)
  then show ?case by (cases "matchHere pat (a # s)") auto
qed

lemma matchHere_prefix: "matchHere (p @ q) s \<noteq> None \<Longrightarrow> matchHere p s \<noteq> None"
proof (induction p s rule: matchHere.induct)
  case (7 r x s)
  then show ?case
    by (cases "matchHere (SpacesStar # r) s") (auto split: option.splits if_splits)
next
  case (9 r x s)
  then show ?case
    by (cases "matchHere r (x # s)") (auto split: option.splits if_splits)
next
  case (11 r x s)
  then show ?case
    by (cases "matchHere r (x # s)"; cases "matchHere (Capture # r) s")
       (auto split: option.splits if_splits)
qed (auto split: if_splits)

lemma occurs_prefix: "occurs (p @ q) s \<Longrightarrow> occurs p s"
proof (induction s)
  case Nil
  then show ?case using matchHere_prefix[of p q "[]"] by simp
next
  case (Cons a s)
  then show ?case using matchHere_prefix[of p q "a # s"] by auto
qed

text \<open>A text without a match of the two patterns every other one begins with stays as it is.\<close>

lemma sanitizeCode_fixed:
  assumes "\<not> occurs rx_export y" "\<not> occurs rx_import_from y"
  shows "sanitizeCode y = y"
proof -
  have "\<not> occurs rx_export_default_function y" "\<not> occurs rx_export_default y"
    using assms(1) occurs_prefix unfolding rx_export_default_function_def rx_export_default_def
    by blast+
  moreover have "\<not> occurs rx_import_from_semi y"
    using assms(2) occurs_prefix unfolding rx_import_from_semi_def by blast
  ultimately show ?thesis
    using assms by (simp add: sanitizeCode_def replaceAll_no_match)
qed

text \<open>The second statement of \<^verbatim>\<open>cleanCode\<close> is the chain of \<^verbatim>\<open>sanitizeCode\<close>.\<close>

lemma cleanCode_stage:
  "cleanCode text = sanitizeCode (case matchFirst rx_fence text of Some g \<Rightarrow> g | None \<Rightarrow> text)"
  by (simp add: cleanCode_def sanitizeCode_def)

text \<open>
  Claim C5 (sanitization idempotence): \<^verbatim>\<open>sanitizeCode(sanitizeCode(x))\<close> equals
  \<^verbatim>\<open>sanitizeCode(x)\<close> for every text, and likewise for the sanitization stage of \<^verbatim>\<open>cleanCode\<close>.
  It fails, and with it the comment of the code, ``Remove export/import keywords'': each
  replacement is one pass from left to right, so removing \<^verbatim>\<open>export \<close> from the middle of
  \<^verbatim>\<open>exexport port x\<close> leaves \<^verbatim>\<open>export x\<close>. The keyword is still there after \<^verbatim>\<open>sanitizeCode\<close> and
  after \<^verbatim>\<open>cleanCode\<close>, and a second pass changes the text again, to \<^verbatim>\<open>x\<close>.
\<close>

theorem sanitizeCode_not_idempotent:
  "sanitizeCode ''exexport port x'' = ''export x'' \<and>
   cleanCode ''exexport port x'' = ''export x'' \<and>
   occurs rx_export (sanitizeCode ''exexport port x'') \<and>
   sanitizeCode (sanitizeCode ''exexport port x'') = ''x'' \<and>
   sanitizeCode (sanitizeCode ''exexport port x'') \<noteq> sanitizeCode ''exexport port x''"
proof -
  have a: "sanitizeCode ''exexport port x'' = ''export x''"
    by (simp add: sanitizeCode_def rx_defs)
  have b: "sanitizeCode ''export x'' = ''x''"
    by (simp add: sanitizeCode_def rx_defs)
  have c: "occurs rx_export ''export x''"
    by (simp add: rx_defs)
  have d: "cleanCode ''exexport port x'' = ''export x''"
    unfolding cleanCode_stage using a by (simp add: rx_defs)
  show ?thesis
    unfolding a b using c d by simp
qed

subsection \<open>The attachment request\<close>

text \<open>
  Claim C1 (feedback on retry). \<^verbatim>\<open>runPipeline\<close> calls \<^verbatim>\<open>generateAttachmentCode\<close> with
  \<^verbatim>\<open>undefined\<close> for \<^verbatim>\<open>previousCode\<close>; the guard \<^verbatim>\<open>previousCode && errorContext\<close> is then
  false, so the request is the one of a first attempt whatever the error context is: the
  feedback of the previous attempt is not in it.
\<close>

theorem attachment_request_without_feedback:
  "attachmentRequest ov partName partDescription assemblyImages partImages None feedback_text m =
   attachmentRequest ov partName partDescription assemblyImages partImages None None m"
  by (simp add: attachmentRequest_def attachmentPrompt_def truthy_def)

subsection \<open>The component verification loop\<close>

lemmas attempt_defs = componentAttempt_def tryComponent_def generationStep_def Let_def
  setComponent_def logCall_def setPhase_def generateComponentCode_def generateContent_def
  performVisualQC_def

lemma componentAttempt_outcome:
  assumes "componentAttempt e cid modelId (st, art, ctx, v) = (st', art', ctx', v')"
  shows "(v' \<and> status art' = VERIFIED \<and> retryCount art' = retryCount art \<and>
            ctx' = ctx @ take 1 (images art')) \<or>
         (\<not> v' \<and> status art' = FAILED \<and> retryCount art' = Suc (retryCount art) \<and> ctx' = ctx)"
    and "componentsUI st' cid = Some art'"
  using assms
  by (auto simp: attempt_defs take_Suc
      split: prod.splits sum.splits option.splits if_splits list.splits)

lemma processLoop_funpow:
  "\<exists>k. processLoop e cid modelId s = (loopStep e cid modelId ^^ k) s"
proof (induction e cid modelId s rule: processLoop.induct)
  case (1 e cid modelId st art ctx v)
  show ?case
  proof (cases "\<not> v \<and> retryCount art < 4")
    case True
    then obtain k where "processLoop e cid modelId (componentAttempt e cid modelId (st, art, ctx, v))
        = (loopStep e cid modelId ^^ k) (componentAttempt e cid modelId (st, art, ctx, v))"
      using 1 by blast
    moreover have "loopStep e cid modelId (st, art, ctx, v) = componentAttempt e cid modelId (st, art, ctx, v)"
      using True by (simp add: loopStep_def verifiedOf_def artifactOf_def)
    ultimately have "processLoop e cid modelId (st, art, ctx, v) = (loopStep e cid modelId ^^ Suc k) (st, art, ctx, v)"
      using True by (simp add: processLoop.simps funpow_swap1)
    then show ?thesis by blast
  next
    case False
    then have "processLoop e cid modelId (st, art, ctx, v) = (loopStep e cid modelId ^^ 0) (st, art, ctx, v)"
      by (auto simp: processLoop.simps)
    then show ?thesis by blast
  qed
qed

lemma loopStep_retry:
  "retryCount (artifactOf (loopStep e cid modelId s)) \<le> Suc (retryCount (artifactOf s))"
  "retryCount (artifactOf s) \<le> 4 \<Longrightarrow> retryCount (artifactOf (loopStep e cid modelId s)) \<le> 4"
  "verifiedOf s \<longrightarrow> status (artifactOf s) = VERIFIED \<Longrightarrow>
     verifiedOf (loopStep e cid modelId s) \<longrightarrow> status (artifactOf (loopStep e cid modelId s)) = VERIFIED"
proof -
  obtain st art ctx v where s: "s = (st, art, ctx, v)" by (metis prod_cases4)
  obtain st' art' ctx' v' where a: "componentAttempt e cid modelId s = (st', art', ctx', v')"
    by (metis prod_cases4)
  note o = componentAttempt_outcome(1)[OF a[unfolded s]]
  have step: "loopStep e cid modelId s = (if \<not> v \<and> retryCount art < 4 then (st', art', ctx', v') else s)"
    using a unfolding s by (cases v) (simp_all add: loopStep_def verifiedOf_def artifactOf_def)
  show "retryCount (artifactOf (loopStep e cid modelId s)) \<le> Suc (retryCount (artifactOf s))"
    unfolding step using o by (auto simp: s artifactOf_def)
  show "retryCount (artifactOf s) \<le> 4 \<Longrightarrow> retryCount (artifactOf (loopStep e cid modelId s)) \<le> 4"
    unfolding step using o by (auto simp: s artifactOf_def)
  show "verifiedOf s \<longrightarrow> status (artifactOf s) = VERIFIED \<Longrightarrow>
     verifiedOf (loopStep e cid modelId s) \<longrightarrow> status (artifactOf (loopStep e cid modelId s)) = VERIFIED"
    unfolding step using o by (auto simp: s artifactOf_def verifiedOf_def)
qed

lemma funpow_retry:
  assumes "retryCount (artifactOf s) \<le> 4" "verifiedOf s \<longrightarrow> status (artifactOf s) = VERIFIED"
  shows "retryCount (artifactOf ((loopStep e cid modelId ^^ k) s)) \<le> 4 \<and>
         (verifiedOf ((loopStep e cid modelId ^^ k) s) \<longrightarrow>
            status (artifactOf ((loopStep e cid modelId ^^ k) s)) = VERIFIED)"
proof (induction k)
  case 0
  then show ?case using assms by simp
next
  case (Suc k)
  then show ?case
    using loopStep_retry(2,3)[of "(loopStep e cid modelId ^^ k) s" e cid modelId] by simp
qed

text \<open>The first component of the demonstration is verified at its first attempt.\<close>

lemmas demo_defs = demo_env_def demo_plan_def demo_state_def demo_stage_def mkComponent_def
  initialComponents_def initialArtifact_def acceptPlan_def startRun_def processComponent_def
  processLoop.simps executeGeneratedCode_def componentRequest_def spread_def
  componentPrompt_def errorContextOf_def truthy_def cleanCode_def sanitizeCode_def rx_defs
  formatImagesForPrompt_def resetScene_def addObject_def clear_def add_child_def
  remove_child_def update_obj_def alloc_def put_new_def newObject_def captureSnapshots_def
  cornerOffsets_def cameraDistanceFor_def vsub_def vadd_def vscale_def normalize_def

lemma demo_base_verified:
  "snd (snd (snd (componentLoop demo_env ''m'' [mkComponent ''base'' []]
     (acceptPlan demo_plan (startRun ''a lamp'' ''m'' demo_state),
      spread (initialComponents (components demo_plan)), [])))) = None"
  by (simp add: attempt_defs demo_defs)


text \<open>
  Claim C8 (retry bound). For a component that enters the loop with a retry count of at
  most 4 (\<^verbatim>\<open>runPipeline\<close> creates every artifact with 0), the retry count is at most 4 after
  any number of turns of the loop, a turn raises it by at most 1, the loop ends after
  finitely many turns, and it ends either verified, with status VERIFIED and
  \<^verbatim>\<open>processComponent\<close> returning the artifact, or not verified, with \<^verbatim>\<open>processComponent\<close>
  throwing.
\<close>

theorem retry_bound:
  assumes "retryCount art \<le> 4"
  shows "(\<forall>k. retryCount (artifactOf ((loopStep e cid modelId ^^ k) (st, art, ctx, False))) \<le> 4 \<and>
              retryCount (artifactOf ((loopStep e cid modelId ^^ Suc k) (st, art, ctx, False)))
                \<le> Suc (retryCount (artifactOf ((loopStep e cid modelId ^^ k) (st, art, ctx, False))))) \<and>
         (\<exists>n. processLoop e cid modelId (st, art, ctx, False)
               = (loopStep e cid modelId ^^ n) (st, art, ctx, False)) \<and>
         ((verifiedOf (processLoop e cid modelId (st, art, ctx, False)) \<and>
             status (artifactOf (processLoop e cid modelId (st, art, ctx, False))) = VERIFIED \<and>
             (\<exists>a. snd (snd (processComponent e cid art ctx modelId st)) = Inr a)) \<or>
          (\<not> verifiedOf (processLoop e cid modelId (st, art, ctx, False)) \<and>
             (\<exists>msg. snd (snd (processComponent e cid art ctx modelId st)) = Inl msg)))"
proof -
  let ?s = "(st, art, ctx, False)"
  have init: "retryCount (artifactOf ?s) \<le> 4" "verifiedOf ?s \<longrightarrow> status (artifactOf ?s) = VERIFIED"
    using assms by (simp_all add: artifactOf_def verifiedOf_def)
  have bound: "retryCount (artifactOf ((loopStep e cid modelId ^^ k) ?s)) \<le> 4" for k
    using funpow_retry[OF init] by blast
  have step: "retryCount (artifactOf ((loopStep e cid modelId ^^ Suc k) ?s))
           \<le> Suc (retryCount (artifactOf ((loopStep e cid modelId ^^ k) ?s)))" for k
    using loopStep_retry(1) by simp
  obtain n where n: "processLoop e cid modelId ?s = (loopStep e cid modelId ^^ n) ?s"
    using processLoop_funpow by blast
  have "verifiedOf (processLoop e cid modelId ?s) \<longrightarrow>
      status (artifactOf (processLoop e cid modelId ?s)) = VERIFIED"
    unfolding n using funpow_retry[OF init] by blast
  then have final: "(verifiedOf (processLoop e cid modelId ?s) \<and>
            status (artifactOf (processLoop e cid modelId ?s)) = VERIFIED \<and>
            (\<exists>a. snd (snd (processComponent e cid art ctx modelId st)) = Inr a)) \<or>
         (\<not> verifiedOf (processLoop e cid modelId ?s) \<and>
            (\<exists>msg. snd (snd (processComponent e cid art ctx modelId st)) = Inl msg))"
    by (cases "processLoop e cid modelId ?s")
       (auto simp: processComponent_def verifiedOf_def artifactOf_def)
  show ?thesis
    using bound step n final by blast
qed

theorem retry_bound_witness:
  "retryCount (artifactOf ((loopStep demo_env ''shade'' ''m'' ^^ 7)
      (demo_state, initialArtifact (mkComponent ''shade'' [''base'']), [], False))) \<le> 4 \<and>
   retryCount (initialArtifact (mkComponent ''shade'' [''base''])) = 0"
  using retry_bound[of "initialArtifact (mkComponent ''shade'' [''base''])" demo_env "''shade''"
      "''m''" demo_state "[]"]
  by (simp add: initialArtifact_def)

lemma componentAttempt_phases:
  assumes "componentAttempt e cid modelId (st, art, ctx, v) = (st', art', ctx', v')"
  shows "set (phaseLog st') \<subseteq> set (phaseLog st) \<union> {GENERATING, FIXING, QC_ANALYSIS}"
  using assms
  by (auto simp: attempt_defs split: prod.splits sum.splits option.splits if_splits)

lemma exhaust:
  "retryCount (artifactOf s) + n = 4 \<Longrightarrow> \<not> verifiedOf s \<Longrightarrow>
   \<forall>k \<in> {1..n}. \<not> verifiedOf ((componentAttempt e cid modelId ^^ k) s) \<Longrightarrow>
     processLoop e cid modelId s = (componentAttempt e cid modelId ^^ n) s \<and>
     retryCount (artifactOf ((componentAttempt e cid modelId ^^ n) s)) = 4"
proof (induction n arbitrary: s)
  case 0
  obtain st art ctx v where s: "s = (st, art, ctx, v)" by (metis prod_cases4)
  show ?case using 0 by (auto simp: s processLoop.simps artifactOf_def)
next
  case (Suc n)
  obtain st art ctx v where s: "s = (st, art, ctx, v)" by (metis prod_cases4)
  let ?A = "componentAttempt e cid modelId"
  obtain st' art' ctx' v' where a: "?A s = (st', art', ctx', v')" by (metis prod_cases4)
  have nv: "\<not> v'"
    using Suc.prems(3)[rule_format, of 1] a by (simp add: verifiedOf_def)
  have rc: "retryCount art' = Suc (retryCount art)"
    using componentAttempt_outcome(1)[OF a[unfolded s]] nv by auto
  have guard: "\<not> v \<and> retryCount art < 4"
    using Suc.prems(1,2) by (simp add: s artifactOf_def verifiedOf_def)
  have unfold: "processLoop e cid modelId s = processLoop e cid modelId (?A s)"
    unfolding s using guard by (subst processLoop.simps) simp
  have "\<forall>k \<in> {1..n}. \<not> verifiedOf ((?A ^^ k) (?A s))"
  proof
    fix k assume "k \<in> {1..n}"
    then have "Suc k \<in> {1..Suc n}" by simp
    then have "\<not> verifiedOf ((?A ^^ Suc k) s)" using Suc.prems(3) by blast
    then show "\<not> verifiedOf ((?A ^^ k) (?A s))" by (simp add: funpow_swap1)
  qed
  moreover have "retryCount (artifactOf (?A s)) + n = 4"
    using Suc.prems(1) rc unfolding a by (simp add: s artifactOf_def)
  moreover have "\<not> verifiedOf (?A s)"
    using nv by (simp add: a verifiedOf_def)
  ultimately have "processLoop e cid modelId (?A s) = (?A ^^ n) (?A s) \<and>
      retryCount (artifactOf ((?A ^^ n) (?A s))) = 4"
    using Suc.IH by blast
  then show ?case
    using unfold by (simp add: funpow_swap1)
qed


lemma processLoop_phases:
  "processLoop e cid modelId s = s' \<Longrightarrow>
     set (phaseLog (fst s')) \<subseteq> set (phaseLog (fst s)) \<union> {GENERATING, FIXING, QC_ANALYSIS}"
proof (induction e cid modelId s arbitrary: s' rule: processLoop.induct)
  case (1 e cid modelId st art ctx v)
  show ?case
  proof (cases "\<not> v \<and> retryCount art < 4")
    case True
    obtain st1 art1 ctx1 v1 where a: "componentAttempt e cid modelId (st, art, ctx, v) = (st1, art1, ctx1, v1)"
      by (metis prod_cases4)
    have "processLoop e cid modelId (st1, art1, ctx1, v1) = s'"
      using 1(2) True a by (subst (asm) processLoop.simps) simp
    then have "set (phaseLog (fst s')) \<subseteq> set (phaseLog st1) \<union> {GENERATING, FIXING, QC_ANALYSIS}"
      using 1(1)[OF True] a by simp
    then show ?thesis
      using componentAttempt_phases[OF a] by auto
  next
    case False
    then have "s' = (st, art, ctx, v)"
      using 1(2) by (subst (asm) processLoop.simps) auto
    then show ?thesis by auto
  qed
qed

lemma processComponent_phases:
  "processComponent e cid art ctx modelId st = (st', ctx', r) \<Longrightarrow>
     set (phaseLog st') \<subseteq> set (phaseLog st) \<union> {GENERATING, FIXING, QC_ANALYSIS}"
  using processLoop_phases[of e cid modelId "(st, art, ctx, False)"]
  by (auto simp: processComponent_def split: prod.splits if_splits)

lemma componentLoop_phases:
  "componentLoop e modelId cs (st, pc, ctx) = (st', pc', ctx', r) \<Longrightarrow>
     set (phaseLog st') \<subseteq> set (phaseLog st) \<union> {GENERATING, FIXING, QC_ANALYSIS}"
proof (induction cs arbitrary: st pc ctx)
  case Nil
  then show ?case by auto
next
  case (Cons c cs)
  show ?case
  proof (cases "pc (id_c c)")
    case None
    then show ?thesis using Cons.prems by auto
  next
    case (Some artifact)
    obtain st1 ctx1 res where p: "processComponent e (id_c c) artifact ctx modelId st = (st1, ctx1, res)"
      by (metis prod_cases3)
    note ph = processComponent_phases[OF p]
    show ?thesis
    proof (cases res)
      case (Inl err)
      then show ?thesis using Cons.prems Some p ph by auto
    next
      case (Inr processed)
      then have "componentLoop e modelId cs (st1, pc(id_c c \<mapsto> processed), ctx1) = (st', pc', ctx', r)"
        using Cons.prems Some p by simp
      then show ?thesis using Cons.IH ph by blast
    qed
  qed
qed

lemma componentLoop_append:
  "componentLoop e modelId (pre @ rest) (st, pc, ctx) =
     (case componentLoop e modelId pre (st, pc, ctx) of
        (st1, pc1, ctx1, None) \<Rightarrow> componentLoop e modelId rest (st1, pc1, ctx1)
      | (st1, pc1, ctx1, Some err) \<Rightarrow> (st1, pc1, ctx1, Some err))"
proof (induction pre arbitrary: st pc ctx)
  case Nil
  then show ?case by simp
next
  case (Cons c pre)
  show ?case
  proof (cases "pc (id_c c)")
    case None
    then show ?thesis by simp
  next
    case (Some artifact)
    obtain st1 ctx1 res where p: "processComponent e (id_c c) artifact ctx modelId st = (st1, ctx1, res)"
      by (metis prod_cases3)
    show ?thesis
    proof (cases res)
      case (Inl err)
      then show ?thesis using Some p by simp
    next
      case (Inr processed)
      have l: "componentLoop e modelId ((c # pre) @ rest) (st, pc, ctx)
          = componentLoop e modelId (pre @ rest) (st1, pc(id_c c \<mapsto> processed), ctx1)"
        using Some p Inr by simp
      have r: "componentLoop e modelId (c # pre) (st, pc, ctx)
          = componentLoop e modelId pre (st1, pc(id_c c \<mapsto> processed), ctx1)"
        using Some p Inr by simp
      show ?thesis
        unfolding l r by (rule Cons.IH)
    qed
  qed
qed

lemma componentLoop_other:
  "componentLoop e modelId cs (st, pc, ctx) = (st', pc', ctx', r) \<Longrightarrow>
     x \<notin> id_c ` set cs \<Longrightarrow> pc' x = pc x"
proof (induction cs arbitrary: st pc ctx)
  case Nil
  then show ?case by simp
next
  case (Cons c cs)
  show ?case
  proof (cases "pc (id_c c)")
    case None
    then show ?thesis using Cons.prems by simp
  next
    case (Some artifact)
    obtain st1 ctx1 res where p: "processComponent e (id_c c) artifact ctx modelId st = (st1, ctx1, res)"
      by (metis prod_cases3)
    show ?thesis
    proof (cases res)
      case (Inl err)
      then show ?thesis using Cons.prems Some p by simp
    next
      case (Inr processed)
      then have "componentLoop e modelId cs (st1, pc(id_c c \<mapsto> processed), ctx1) = (st', pc', ctx', r)"
        using Cons.prems Some p by simp
      then have "pc' x = (pc(id_c c \<mapsto> processed)) x"
        using Cons.IH Cons.prems(2) by simp
      then show ?thesis using Cons.prems(2) by simp
    qed
  qed
qed

lemma fold_initial_other:
  "k \<notin> id_c ` set cs \<Longrightarrow> fold (\<lambda>c m. m(id_c c \<mapsto> initialArtifact c)) cs m k = m k"
  by (induction cs arbitrary: m) auto

lemma fold_initial_lookup:
  "distinct (map id_c cs) \<Longrightarrow> c \<in> set cs \<Longrightarrow>
     fold (\<lambda>c m. m(id_c c \<mapsto> initialArtifact c)) cs m (id_c c) = Some (initialArtifact c)"
proof (induction cs arbitrary: m)
  case Nil
  then show ?case by simp
next
  case (Cons x cs)
  show ?case
  proof (cases "c \<in> set cs")
    case True
    then show ?thesis using Cons by simp
  next
    case False
    then have cx: "c = x" using Cons.prems(2) by simp
    have "id_c x \<notin> id_c ` set cs" using Cons.prems(1) by simp
    then have "fold (\<lambda>c m. m(id_c c \<mapsto> initialArtifact c)) cs
        (m(id_c x \<mapsto> initialArtifact x)) (id_c x) = (m(id_c x \<mapsto> initialArtifact x)) (id_c x)"
      by (rule fold_initial_other)
    then show ?thesis
      unfolding cx by (simp only: fold.simps o_apply fun_upd_same)
  qed
qed

lemma initialComponents_lookup:
  "distinct (map id_c cs) \<Longrightarrow> c \<in> set cs \<Longrightarrow>
     initialComponents cs (id_c c) = Some (initialArtifact c)"
  unfolding initialComponents_def by (rule fold_initial_lookup)


lemma startRun_phaseLog:
  "phaseLog (acceptPlan pl (startRun prompt modelId st0)) = [PLANNING]"
  by (simp add: acceptPlan_def startRun_def setPhase_def logCall_def)

text \<open>A component whose name the judge never passes is never verified.\<close>

lemma componentAttempt_needs_pass:
  assumes "componentAttempt e cid modelId (st, art, ctx, v) = (st', art', ctx', v')"
  shows "plan art' = plan art"
    and "v' \<Longrightarrow> \<exists>n imgs q. visualQC e n (name (plan art)) imgs ctx = Inr q \<and> passed q"
  using assms
  by (auto simp: attempt_defs split: prod.splits sum.splits option.splits if_splits)

lemma never_verified:
  assumes rej: "\<forall>n imgs ctx q. visualQC e n nm imgs ctx = Inr q \<longrightarrow> \<not> passed q"
    and nm: "name (plan (artifactOf s)) = nm"
  shows "name (plan (artifactOf ((componentAttempt e cid modelId ^^ k) s))) = nm \<and>
         (0 < k \<longrightarrow> \<not> verifiedOf ((componentAttempt e cid modelId ^^ k) s))"
proof (induction k)
  case 0
  then show ?case using nm by simp
next
  case (Suc k)
  obtain st art ctx v where s: "(componentAttempt e cid modelId ^^ k) s = (st, art, ctx, v)"
    by (metis prod_cases4)
  obtain st' art' ctx' v' where a: "componentAttempt e cid modelId (st, art, ctx, v) = (st', art', ctx', v')"
    by (metis prod_cases4)
  have "name (plan art) = nm"
    using Suc s by (simp add: artifactOf_def)
  then have "name (plan art') = nm" "\<not> v'"
    using componentAttempt_needs_pass[OF a] rej by auto
  then show ?case
    by (simp add: s a artifactOf_def verifiedOf_def)
qed

lemma spread_initialComponents_lookup:
  "distinct (map id_c cs) \<Longrightarrow> c \<in> set cs \<Longrightarrow> id_c c \<noteq> ''__proto__'' \<Longrightarrow>
     spread (initialComponents cs) (id_c c) = Some (initialArtifact c)"
  using initialComponents_lookup[of cs c] by (simp add: spread_def)

text \<open>A component named \<^verbatim>\<open>__proto__\<close> has no entry in the copy: the run ends before an attempt.\<close>

lemma componentLoop_proto:
  "id_c c = ''__proto__'' \<Longrightarrow>
     componentLoop e modelId (c # cs) (st, spread pc, ctx) = (st, spread pc, ctx, Some ''TypeError'')"
  by (simp add: spread_def)

text \<open>
  Claim C6 (component retry exhaustion is fatal). In a run whose plan has unique ids, when
  the components before \<open>c\<close> have been processed without error and four attempts in a row
  on \<open>c\<close> end unverified, the run ends in phase ERROR, the phase ASSEMBLING is never set in
  it, and the status of \<open>c\<close> shown is FAILED with a retry count of 4. The id of \<open>c\<close> is not
  \<^verbatim>\<open>__proto__\<close>: on a component of that name no attempt is made.
\<close>

theorem component_exhaustion_fatal:
  assumes plan: "planOracle e prompt modelId = Inr pl"
    and ids: "distinct (map id_c (components pl))"
    and split: "components pl = pre @ c # post"
    and key: "id_c c \<noteq> ''__proto__''"
    and before: "componentLoop e modelId pre
        (acceptPlan pl (startRun prompt modelId st0), spread (initialComponents (components pl)), [])
        = (st1, pc1, ctx1, None)"
    and fails: "\<forall>k \<in> {1..4}. \<not> verifiedOf
        ((componentAttempt e (id_c c) modelId ^^ k) (st1, initialArtifact c, ctx1, False))"
  shows "phase (runPipeline e prompt modelId st0) = ERROR \<and>
         ASSEMBLING \<notin> set (phaseLog (runPipeline e prompt modelId st0)) \<and>
         (\<exists>a. componentsUI (runPipeline e prompt modelId st0) (id_c c) = Some a \<and>
              status a = FAILED \<and> retryCount a = 4)"
proof -
  let ?A = "componentAttempt e (id_c c) modelId"
  let ?s0 = "(st1, initialArtifact c, ctx1, False)"
  have cin: "c \<in> set (components pl)" and notpre: "id_c c \<notin> id_c ` set pre"
    using ids split by auto
  have "pc1 (id_c c) = spread (initialComponents (components pl)) (id_c c)"
    using componentLoop_other[OF before notpre] .
  then have art: "pc1 (id_c c) = Some (initialArtifact c)"
    using spread_initialComponents_lookup[OF ids cin key] by simp
  have ex: "processLoop e (id_c c) modelId ?s0 = (?A ^^ 4) ?s0"
    and rc: "retryCount (artifactOf ((?A ^^ 4) ?s0)) = 4"
    using exhaust[of ?s0 4 e "id_c c" modelId] fails
    by (simp_all add: artifactOf_def verifiedOf_def initialArtifact_def)
  obtain st3 art3 ctx3 v3 where three: "(?A ^^ 3) ?s0 = (st3, art3, ctx3, v3)"
    by (metis prod_cases4)
  obtain st' art' ctx' v' where four: "(?A ^^ 4) ?s0 = (st', art', ctx', v')"
    by (metis prod_cases4)
  have "(?A ^^ 4) ?s0 = ?A ((?A ^^ 3) ?s0)"
    by (simp add: numeral_eq_Suc)
  then have last: "?A (st3, art3, ctx3, v3) = (st', art', ctx', v')"
    using three four by simp
  have nv: "\<not> v'"
    using fails[rule_format, of 4] four by (simp add: verifiedOf_def)
  have failed: "status art' = FAILED" and ui: "componentsUI st' (id_c c) = Some art'"
    using componentAttempt_outcome[OF last] nv by auto
  have rc4: "retryCount art' = 4"
    using rc four by (simp add: artifactOf_def)
  have pcomp: "processComponent e (id_c c) (initialArtifact c) ctx1 modelId st1
      = (st', ctx', Inl (''Failed to generate stable component '' @ name (plan art') @
                  '' after maximum retries.''))"
    using ex four nv by (simp add: processComponent_def)
  have "componentLoop e modelId (components pl)
        (acceptPlan pl (startRun prompt modelId st0), spread (initialComponents (components pl)), [])
      = componentLoop e modelId (c # post) (st1, pc1, ctx1)"
    using before by (simp add: split componentLoop_append del: componentLoop.simps)
  also have "\<dots> = (st', pc1, ctx', Some (''Failed to generate stable component '' @
      name (plan art') @ '' after maximum retries.''))"
    using art pcomp by simp
  finally have run: "runPipeline e prompt modelId st0 = setPhase ERROR st'"
    using plan by (simp add: runPipeline_def)
  have "set (phaseLog st') \<subseteq> set (phaseLog st1) \<union> {GENERATING, FIXING, QC_ANALYSIS}"
    using processComponent_phases[OF pcomp] .
  moreover have "set (phaseLog st1) \<subseteq> {PLANNING} \<union> {GENERATING, FIXING, QC_ANALYSIS}"
    using componentLoop_phases[OF before] by (simp add: startRun_phaseLog)
  ultimately have "ASSEMBLING \<notin> set (phaseLog st')"
    by auto
  then show ?thesis
    unfolding run using ui failed rc4 by (simp add: setPhase_def)
qed

theorem component_exhaustion_fatal_witness:
  "phase (runPipeline demo_env ''a lamp'' ''m'' demo_state) = ERROR \<and>
   ASSEMBLING \<notin> set (phaseLog (runPipeline demo_env ''a lamp'' ''m'' demo_state)) \<and>
   (\<exists>a. componentsUI (runPipeline demo_env ''a lamp'' ''m'' demo_state) ''shade'' = Some a \<and>
        status a = FAILED \<and> retryCount a = 4)"
proof -
  let ?X = "componentLoop demo_env ''m'' [mkComponent ''base'' []]
     (acceptPlan demo_plan (startRun ''a lamp'' ''m'' demo_state),
      spread (initialComponents (components demo_plan)), [])"
  have plan: "planOracle demo_env ''a lamp'' ''m'' = Inr demo_plan"
    by (simp add: demo_env_def)
  have ids: "distinct (map id_c (components demo_plan))"
    by (simp add: demo_plan_def mkComponent_def)
  have split: "components demo_plan = [mkComponent ''base'' []] @ mkComponent ''shade'' [''base''] # []"
    by (simp add: demo_plan_def)
  have key: "id_c (mkComponent ''shade'' [''base'']) \<noteq> ''__proto__''"
    by (simp add: mkComponent_def)
  have "snd (snd (snd ?X)) = None"
    by (rule demo_base_verified)
  then have before: "?X = (fst ?X, fst (snd ?X), fst (snd (snd ?X)), None)"
    by (metis prod.collapse)
  have rej: "\<forall>n imgs ctx q. visualQC demo_env n ''shade'' imgs ctx = Inr q \<longrightarrow> \<not> passed q"
    by (simp add: demo_env_def)
  have fails: "\<forall>k \<in> {1..4}. \<not> verifiedOf ((componentAttempt demo_env
      (id_c (mkComponent ''shade'' [''base''])) ''m'' ^^ k)
      (fst ?X, initialArtifact (mkComponent ''shade'' [''base'']), fst (snd (snd ?X)), False))"
    using never_verified[OF rej, of "(fst ?X, initialArtifact (mkComponent ''shade'' [''base'']),
        fst (snd (snd ?X)), False)"]
    by (simp add: artifactOf_def initialArtifact_def mkComponent_def)
  show ?thesis
    using component_exhaustion_fatal[OF plan ids split key before fails]
    by (simp add: mkComponent_def)
qed

text \<open>What a capture, completed or aborted, does not change, and that a completed one has
  eight snapshots.\<close>

lemma snapshotLoop_keeps:
  "snapshotLoop e h c d offs sg = (res, sg') \<Longrightarrow>
     background sg' = background sg \<and>
     gridVisible sg' = gridVisible sg \<and> controlsTarget sg' = controlsTarget sg \<and>
     initialized sg' = initialized sg \<and> rootGroup sg' = rootGroup sg \<and>
     cameraFov sg' = cameraFov sg \<and> (\<forall>imgs. res = Inr imgs \<longrightarrow> length imgs = length offs)"
proof (induction offs arbitrary: sg res)
  case Nil
  then show ?case by auto
next
  case (Cons offset rest)
  then show ?case
    by (fastforce simp: Let_def split: prod.splits sum.splits)
qed

lemma length_cornerOffsets: "length (cornerOffsets d) = 8"
  by (simp add: cornerOffsets_def)

lemma captureSnapshots_stage:
  "captureSnapshots e h sg = (res, sg') \<Longrightarrow>
     initialized sg' = initialized sg \<and> rootGroup sg' = rootGroup sg \<and>
     (initialized sg \<longrightarrow> (\<forall>imgs. res = Inr imgs \<longrightarrow> length imgs = 8))"
  by (auto simp: captureSnapshots_def Let_def length_cornerOffsets
      split: prod.splits if_splits sum.splits dest!: snapshotLoop_keeps)

lemma requests_carry_simps [simp]:
  "requests_carry nm ds ctx modelId []"
  "requests_carry nm ds ctx modelId (xs @ ys) \<longleftrightarrow>
     requests_carry nm ds ctx modelId xs \<and> requests_carry nm ds ctx modelId ys"
  "requests_carry nm ds ctx modelId (GenerateContent r # cl) \<longleftrightarrow>
     (\<exists>p ec. r = componentRequest nm ds p ec ctx modelId) \<and> requests_carry nm ds ctx modelId cl"
  "requests_carry nm ds ctx modelId (PerformVisualQC a b c # cl) \<longleftrightarrow>
     requests_carry nm ds ctx modelId cl"
  by (auto simp: requests_carry_def)

lemma componentRequest_is_request [simp]:
  "\<exists>p ec. componentRequest nm ds p0 ec0 ctx modelId = componentRequest nm ds p ec ctx modelId"
  by blast


lemma pstate_fields [simp]:
  "calls (setPhase p st) = calls st" "stage (setPhase p st) = stage st"
  "calls (setComponent cid a st) = calls st" "stage (setComponent cid a st) = stage st"
  "calls (logCall c st) = calls st @ [c]" "stage (logCall c st) = stage st"
  by (simp_all add: setPhase_def setComponent_def logCall_def)
















subsection \<open>Snapshot capture\<close>

lemma mountStage_fields:
  "cameraNear (snd (mountStage h)) = 0.1 \<and> cameraFar (snd (mountStage h)) = 1000 \<and>
   initialized (snd (mountStage h))"
  by (simp add: mountStage_def split: prod.splits)

text \<open>The stage of the demonstration is the stage as mounted, with the group at address 0.\<close>

lemma mountStage_demo: "(snd (mountStage h))\<lparr>rootGroup := 0\<rparr> = demo_stage"
  by (simp add: mountStage_def demo_stage_def split: prod.splits)

text \<open>When no render throws, the capture returns.\<close>

lemma snapshotLoop_returns:
  "\<forall>sg. \<exists>img. render e h sg = Inr img \<Longrightarrow>
     \<exists>imgs sg'. snapshotLoop e h c d offs sg = (Inr imgs, sg')"
proof (induction offs arbitrary: sg)
  case Nil
  then show ?case by simp
next
  case (Cons offset rest)
  let ?sg1 = "sg\<lparr>cameraPosition := vadd c offset, cameraTarget := c,
      cameraNear := max 0.01 (d / 100), cameraFar := max 1000 (d * 10)\<rparr>"
  obtain img where img: "render e h ?sg1 = Inr img"
    using Cons.prems by blast
  obtain imgs sg' where r: "snapshotLoop e h c d rest ?sg1 = (Inr imgs, sg')"
    using Cons.IH[OF Cons.prems] by blast
  show ?case
    using img r by (simp add: Let_def)
qed

lemma captureSnapshots_returns:
  assumes "\<forall>sg. \<exists>img. render e h sg = Inr img"
  shows "\<exists>imgs sg'. captureSnapshots e h sg = (Inr imgs, sg')"
proof (cases "initialized sg")
  case False
  then show ?thesis by (simp add: captureSnapshots_def)
next
  case True
  let ?box = "boundingBox e h (rootGroup sg)"
  let ?d = "cameraDistanceFor (cameraFov sg)
      (case ?box of None \<Rightarrow> (0, 0, 0) | Some (lo, hi) \<Rightarrow> vsub hi lo)"
  obtain imgs sg2 where "snapshotLoop e h
      (case ?box of None \<Rightarrow> (0, 0, 0) | Some (lo, hi) \<Rightarrow> vscale (1 / 2) (vadd lo hi))
      ?d (cornerOffsets ?d)
      (sg\<lparr>background := ''#ffffff'', gridVisible := map_option (\<lambda>v. True) (gridVisible sg)\<rparr>)
      = (Inr imgs, sg2)"
    using snapshotLoop_returns[OF assms] by blast
  then show ?thesis
    using True by (simp add: captureSnapshots_def Let_def)
qed




subsection \<open>The anchor and the drafts of the assembly loop\<close>

lemma store_simps [simp]:
  "cells (update_obj a f h) x = (if x = a then map_option f (cells h a) else cells h x)"
  "nxt (update_obj a f h) = nxt h"
  "cells (put_new ob h) x = (if x = nxt h then Some ob else cells h x)"
  "nxt (put_new ob h) = Suc (nxt h)"
  by (simp_all add: update_obj_def put_new_def)

lemma reach_closed: "closed h S \<Longrightarrow> R \<subseteq> S \<Longrightarrow> reach h R \<subseteq> S"
proof
  fix b assume c: "closed h S" and r: "R \<subseteq> S" and b: "b \<in> reach h R"
  then obtain a where a: "a \<in> R" "(a, b) \<in> (edges h)\<^sup>*"
    by (auto simp: reach_def)
  from a(2) show "b \<in> S"
  proof (induction rule: rtrancl_induct)
    case base
    then show ?case using a(1) r by blast
  next
    case (step y z)
    then show ?case using c by (auto simp: closed_def edges_def)
  qed
qed

text \<open>
  A clone is made of new objects only: the store below the old bound is as it was, the new
  objects point to new objects, and the clone has no parent.
\<close>

lemma add_child_fresh:
  assumes "c \<noteq> b" "cells h c = Some co" "parent co = None"
  shows "add_child b c h = update_obj b (\<lambda>ob. ob\<lparr>children := children ob @ [c]\<rparr>)
            (update_obj c (\<lambda>ob. ob\<lparr>parent := Some b\<rparr>) h)"
  using assms by (simp add: add_child_def)

lemma clone_spec:
  "clone_rec n a h = Some (h', b) \<Longrightarrow>
     b = nxt h \<and> nxt h < nxt h' \<and> (\<forall>x < nxt h. cells h' x = cells h x) \<and>
     (\<forall>x. nxt h \<le> x \<and> x < nxt h' \<longrightarrow> (\<exists>ob. cells h' x = Some ob \<and> ptrs ob \<subseteq> {nxt h ..< nxt h'})) \<and>
     (\<exists>ob. cells h' b = Some ob \<and> parent ob = None)"
  "clone_children n b cs h = Some h' \<Longrightarrow> b < nxt h \<Longrightarrow> cells h b = Some bo \<Longrightarrow>
     nxt h \<le> nxt h' \<and> (\<forall>x < nxt h. x \<noteq> b \<longrightarrow> cells h' x = cells h x) \<and>
     (\<exists>bo'. cells h' b = Some bo' \<and> parent bo' = parent bo \<and>
        set (children bo') \<subseteq> set (children bo) \<union> {nxt h ..< nxt h'}) \<and>
     (\<forall>x. nxt h \<le> x \<and> x < nxt h' \<longrightarrow>
        (\<exists>ob. cells h' x = Some ob \<and> ptrs ob \<subseteq> insert b {nxt h ..< nxt h'}))"
proof (induction n a h and n b cs h arbitrary: h' b and h' bo rule: clone_rec_clone_children.induct)
  case (1 a h)
  then show ?case by simp
next
  case (2 n a h)
  from "2.prems" obtain ob where ob: "cells h a = Some ob"
    by (auto split: option.splits)
  let ?b = "nxt h"
  let ?h1 = "put_new (ob\<lparr>children := [], parent := None\<rparr>) h"
  from "2.prems" ob obtain h2 where h2: "clone_children n ?b (children ob) ?h1 = Some h2"
    and res: "h' = h2" "b = ?b"
    by (auto simp: alloc_def split: option.splits)
  have b1: "?b < nxt ?h1" and c1: "cells ?h1 ?b = Some (ob\<lparr>children := [], parent := None\<rparr>)"
    by simp_all
  note IH = "2.IH"[OF ob _ h2 b1 c1, simplified alloc_def, OF refl]
  have lt: "nxt h < nxt h2" using IH by simp
  have frame: "\<forall>x < nxt h. cells h2 x = cells h x"
    using IH by auto
  obtain bo' where bo': "cells h2 ?b = Some bo'" "parent bo' = None"
    "set (children bo') \<subseteq> {Suc (nxt h) ..< nxt h2}"
    using IH by auto
  have region: "\<exists>ob. cells h2 x = Some ob \<and> ptrs ob \<subseteq> {nxt h ..< nxt h2}"
    if x: "nxt h \<le> x" "x < nxt h2" for x
  proof (cases "x = nxt h")
    case True
    then show ?thesis using bo' by (auto simp: ptrs_def)
  next
    case False
    then have "Suc (nxt h) \<le> x" using x by simp
    then obtain ob' where "cells h2 x = Some ob'" "ptrs ob' \<subseteq> insert (nxt h) {Suc (nxt h) ..< nxt h2}"
      using IH x by auto
    moreover have "insert (nxt h) {Suc (nxt h) ..< nxt h2} \<subseteq> {nxt h ..< nxt h2}"
      using lt by auto
    ultimately show ?thesis by blast
  qed
  show ?case
    unfolding res using lt frame region bo' by blast
next
  case (3 n b h)
  then show ?case by auto
next
  case (4 n b c cs h)
  from "4.prems"(1) obtain h1 c' where cl: "clone_rec n c h = Some (h1, c')"
    and rest: "clone_children n b cs (add_child b c' h1) = Some h'"
    by (auto split: option.splits)
  note A = "4.IH"(1)[OF cl]
  obtain co where co: "cells h1 c' = Some co" "parent co = None"
    using A by auto
  have c'b: "c' \<noteq> b" using A "4.prems"(2) by auto
  let ?h1' = "add_child b c' h1"
  have h1': "?h1' = update_obj b (\<lambda>ob. ob\<lparr>children := children ob @ [c']\<rparr>)
            (update_obj c' (\<lambda>ob. ob\<lparr>parent := Some b\<rparr>) h1)"
    using add_child_fresh[OF c'b co] .
  have b1: "cells h1 b = Some bo" using A "4.prems"(2,3) by auto
  have nx: "nxt ?h1' = nxt h1" unfolding h1' by simp
  have bn: "b < nxt ?h1'" using A "4.prems"(2) nx by simp
  have cb: "cells ?h1' b = Some (bo\<lparr>children := children bo @ [c']\<rparr>)"
    unfolding h1' using b1 c'b by simp
  note B = "4.IH"(2)[OF cl _ rest bn cb, OF refl]
  have 1: "nxt h \<le> nxt h'" using A B nx by simp
  have 2: "\<forall>x < nxt h. x \<noteq> b \<longrightarrow> cells h' x = cells h x"
  proof (intro allI impI)
    fix x assume x: "x < nxt h" "x \<noteq> b"
    then have "x < nxt ?h1'" using A nx by simp
    then have "cells h' x = cells ?h1' x" using B x by simp
    also have "\<dots> = cells h1 x" unfolding h1' using x A by auto
    also have "\<dots> = cells h x" using A x by simp
    finally show "cells h' x = cells h x" .
  qed
  have 3: "\<exists>bo'. cells h' b = Some bo' \<and> parent bo' = parent bo \<and>
        set (children bo') \<subseteq> set (children bo) \<union> {nxt h ..< nxt h'}"
  proof -
    obtain bo' where "cells h' b = Some bo'" "parent bo' = parent bo"
      "set (children bo') \<subseteq> set (children bo @ [c']) \<union> {nxt ?h1' ..< nxt h'}"
      using B by auto
    moreover have "c' \<in> {nxt h ..< nxt h'}" using A B nx by auto
    moreover have "{nxt ?h1' ..< nxt h'} \<subseteq> {nxt h ..< nxt h'}" using A nx by auto
    ultimately show ?thesis by auto
  qed
  have 4: "\<exists>ob. cells h' x = Some ob \<and> ptrs ob \<subseteq> insert b {nxt h ..< nxt h'}"
    if x: "nxt h \<le> x" "x < nxt h'" for x
  proof (cases "x < nxt h1")
    case True
    then have xb: "x \<noteq> b" using x "4.prems"(2) by simp
    obtain ob where ob: "cells h1 x = Some ob" "ptrs ob \<subseteq> {nxt h ..< nxt h1}"
      using A x True by auto
    have "cells h' x = cells ?h1' x" using B True nx xb by simp
    also have "\<dots> = (if x = c' then Some (ob\<lparr>parent := Some b\<rparr>) else Some ob)"
      unfolding h1' using xb ob by auto
    finally have "cells h' x = (if x = c' then Some (ob\<lparr>parent := Some b\<rparr>) else Some ob)" .
    moreover have "{nxt h ..< nxt h1} \<subseteq> {nxt h ..< nxt h'}" using B nx by auto
    ultimately show ?thesis using ob(2) by (auto simp: ptrs_def)
  next
    case False
    then have "nxt ?h1' \<le> x \<and> x < nxt h'" using x nx by simp
    then obtain ob where "cells h' x = Some ob" "ptrs ob \<subseteq> insert b {nxt ?h1' ..< nxt h'}"
      using B by blast
    moreover have "{nxt ?h1' ..< nxt h'} \<subseteq> {nxt h ..< nxt h'}" using A nx by auto
    ultimately show ?thesis by auto
  qed
  show ?case using 1 2 3 4 by blast
qed

lemma clone_fresh:
  assumes "clone a h = Some (h', b)"
  shows "b = nxt h" "nxt h < nxt h'" "\<And>x. x < nxt h \<Longrightarrow> cells h' x = cells h x"
    "\<And>x. nxt h \<le> x \<Longrightarrow> x < nxt h' \<Longrightarrow> \<exists>ob. cells h' x = Some ob \<and> ptrs ob \<subseteq> {nxt h ..< nxt h'}"
    "\<exists>ob. cells h' b = Some ob \<and> parent ob = None"
  using clone_spec(1)[OF assms[unfolded clone_def]] by blast+

lemma stage_change_refl: "stage_change g h h"
  by (simp add: stage_change_def)

lemma stage_change_trans:
  assumes "stage_change g h1 h2" "stage_change g h2 h3"
  shows "stage_change g h1 h3"
  unfolding stage_change_def
proof (intro conjI allI impI)
  show "nxt h3 = nxt h1" using assms by (simp add: stage_change_def)
next
  fix x assume "cells h1 x = None"
  then show "cells h3 x = None" using assms by (simp add: stage_change_def)
next
  fix x ob assume "cells h1 x = Some ob"
  then obtain ob2 where ob2: "cells h2 x = Some ob2" "position ob2 = position ob"
      "rotation ob2 = rotation ob" "scale ob2 = scale ob"
      "parent ob2 = parent ob \<or> parent ob2 = None \<or> parent ob2 = Some g"
      "x \<noteq> g \<longrightarrow> children ob2 = children ob"
    using assms(1) unfolding stage_change_def by blast
  then obtain ob3 where ob3: "cells h3 x = Some ob3" "position ob3 = position ob2"
      "rotation ob3 = rotation ob2" "scale ob3 = scale ob2"
      "parent ob3 = parent ob2 \<or> parent ob3 = None \<or> parent ob3 = Some g"
      "x \<noteq> g \<longrightarrow> children ob3 = children ob2"
    using assms(2) unfolding stage_change_def by blast
  show "\<exists>ob'. cells h3 x = Some ob' \<and> position ob' = position ob \<and>
             rotation ob' = rotation ob \<and> scale ob' = scale ob \<and>
             (parent ob' = parent ob \<or> parent ob' = None \<or> parent ob' = Some g) \<and>
             (x \<noteq> g \<longrightarrow> children ob' = children ob)"
    using ob2 ob3 by auto
qed

lemma fold_clear_parent:
  "cells (fold (\<lambda>c. update_obj c (\<lambda>ob. ob\<lparr>parent := None\<rparr>)) cs h) x =
     (if x \<in> set cs then map_option (\<lambda>ob. ob\<lparr>parent := None\<rparr>) (cells h x) else cells h x)"
  "nxt (fold (\<lambda>c. update_obj c (\<lambda>ob. ob\<lparr>parent := None\<rparr>)) cs h) = nxt h"
proof (induction cs arbitrary: h)
  case Nil
  case 1 show ?case by simp
  case 2 show ?case by simp
next
  case (Cons c cs)
  case 1 show ?case
    by (cases "cells h c") (auto simp: Cons.IH option.map_comp comp_def)
  case 2 show ?case by (simp add: Cons.IH)
qed

lemma clear_effect:
  assumes "cells h g = Some go"
  shows "nxt (clear g h) = nxt h"
    "\<exists>go'. cells (clear g h) g = Some go' \<and> children go' = []"
    "stage_change g h (clear g h)"
proof -
  show "nxt (clear g h) = nxt h" using assms by (simp add: clear_def fold_clear_parent)
  show "\<exists>go'. cells (clear g h) g = Some go' \<and> children go' = []"
    using assms by (simp add: clear_def fold_clear_parent)
  show "stage_change g h (clear g h)"
    unfolding stage_change_def using assms
    by (auto simp: clear_def fold_clear_parent)
qed

lemma add_child_effect:
  assumes "cells h c = Some co" "c \<noteq> p"
  shows "nxt (add_child p c h) = nxt h"
    "\<And>x. cells h x = None \<Longrightarrow> cells (add_child p c h) x = None"
    "\<And>x. x \<notin> {p, c} \<union> set_option (parent co) \<Longrightarrow> cells (add_child p c h) x = cells h x"
    "\<And>x ob. cells h x = Some ob \<Longrightarrow>
        \<exists>ob'. cells (add_child p c h) x = Some ob' \<and> position ob' = position ob \<and>
          rotation ob' = rotation ob \<and> scale ob' = scale ob \<and>
          parent ob' = (if x = c then Some p else parent ob) \<and>
          (x \<noteq> p \<and> Some x \<noteq> parent co \<longrightarrow> children ob' = children ob) \<and>
          (x \<noteq> p \<longrightarrow> set (children ob') \<subseteq> set (children ob)) \<and>
          (x = p \<longrightarrow> (\<exists>ys. children ob' = ys @ [c] \<and> set ys \<subseteq> set (children ob)))"
proof -
  show "nxt (add_child p c h) = nxt h"
    using assms by (auto simp: add_child_def remove_child_def Let_def split: option.splits)
  show "\<And>x. cells h x = None \<Longrightarrow> cells (add_child p c h) x = None"
    using assms by (auto simp: add_child_def remove_child_def Let_def split: option.splits)
  show "\<And>x. x \<notin> {p, c} \<union> set_option (parent co) \<Longrightarrow> cells (add_child p c h) x = cells h x"
    using assms by (auto simp: add_child_def remove_child_def Let_def split: option.splits)
  fix x ob assume x: "cells h x = Some ob"
  show "\<exists>ob'. cells (add_child p c h) x = Some ob' \<and> position ob' = position ob \<and>
          rotation ob' = rotation ob \<and> scale ob' = scale ob \<and>
          parent ob' = (if x = c then Some p else parent ob) \<and>
          (x \<noteq> p \<and> Some x \<noteq> parent co \<longrightarrow> children ob' = children ob) \<and>
          (x \<noteq> p \<longrightarrow> set (children ob') \<subseteq> set (children ob)) \<and>
          (x = p \<longrightarrow> (\<exists>ys. children ob' = ys @ [c] \<and> set ys \<subseteq> set (children ob)))"
  proof (cases "parent co")
    case None
    then show ?thesis using assms x by (auto simp: add_child_def Let_def)
  next
    case (Some q)
    show ?thesis
    proof (cases "cells h q")
      case None
      then show ?thesis using assms x Some by (auto simp: add_child_def remove_child_def Let_def)
    next
      case qo: (Some qo)
      show ?thesis
        using assms x Some qo set_remove1_subset[of c "children qo"]
        by (auto simp: add_child_def remove_child_def Let_def)
    qed
  qed
qed

lemma add_child_change:
  assumes "cells h c = Some co" "c \<noteq> g" "parent co = None \<or> parent co = Some g"
  shows "stage_change g h (add_child g c h)"
  unfolding stage_change_def
proof (intro conjI allI impI)
  show "nxt (add_child g c h) = nxt h" using assms by (simp add: add_child_effect)
next
  fix x assume "cells h x = None"
  then show "cells (add_child g c h) x = None" using assms by (simp add: add_child_effect)
next
  fix x ob assume "cells h x = Some ob"
  from add_child_effect(4)[OF assms(1,2) this] assms(3)
  show "\<exists>ob'. cells (add_child g c h) x = Some ob' \<and> position ob' = position ob \<and>
             rotation ob' = rotation ob \<and> scale ob' = scale ob \<and>
             (parent ob' = parent ob \<or> parent ob' = None \<or> parent ob' = Some g) \<and>
             (x \<noteq> g \<longrightarrow> children ob' = children ob)"
    by (auto split: if_splits)
qed

text \<open>Showing an object on the stage: the stage is reset and the object added.\<close>

lemma show_effect:
  assumes g: "cells h g = Some go" and c: "cells h c = Some co" and ne: "c \<noteq> g"
    and par: "parent co = None \<or> parent co = Some g"
  shows "stage_change g h (add_child g c (clear g h))"
    "\<exists>go'. cells (add_child g c (clear g h)) g = Some go' \<and> children go' = [c]"
    "\<exists>co'. cells (add_child g c (clear g h)) c = Some co' \<and> parent co' = Some g"
proof -
  have ch: "stage_change g h (clear g h)" by (rule clear_effect(3)[OF g])
  obtain co1 where co1: "cells (clear g h) c = Some co1"
    "parent co1 = parent co \<or> parent co1 = None \<or> parent co1 = Some g"
    using ch c unfolding stage_change_def by blast
  then have par1: "parent co1 = None \<or> parent co1 = Some g" using par by auto
  show "stage_change g h (add_child g c (clear g h))"
    by (rule stage_change_trans[OF ch add_child_change[OF co1(1) ne par1]])
  obtain go1 where go1: "cells (clear g h) g = Some go1" "children go1 = []"
    using clear_effect(2)[OF g] by blast
  from add_child_effect(4)[OF co1(1) ne go1(1)] go1(2)
  show "\<exists>go'. cells (add_child g c (clear g h)) g = Some go' \<and> children go' = [c]"
    by auto
  from add_child_effect(4)[OF co1(1) ne co1(1)]
  show "\<exists>co'. cells (add_child g c (clear g h)) c = Some co' \<and> parent co' = Some g"
    by auto
qed

lemma anchorState_change:
  "stage_change g h h' \<Longrightarrow> r \<noteq> g \<Longrightarrow> anchorState r h' = anchorState r h"
proof (cases "cells h r")
  case None
  assume "stage_change g h h'"
  then have "cells h' r = None" using None by (simp add: stage_change_def)
  then show ?thesis using None by (simp add: anchorState_def)
next
  case (Some ob)
  assume "stage_change g h h'" "r \<noteq> g"
  then obtain ob' where "cells h' r = Some ob'" "position ob' = position ob"
    "rotation ob' = rotation ob" "scale ob' = scale ob" "children ob' = children ob"
    using Some unfolding stage_change_def by blast
  then show ?thesis using Some by (simp add: anchorState_def)
qed

lemma anchorState_cell: "cells h' r = cells h r \<Longrightarrow> anchorState r h' = anchorState r h"
  by (simp add: anchorState_def)

lemma stage_isolated_frame:
  assumes "stage_isolated g h S" "nxt h \<le> nxt h'" "\<And>x. x < nxt h \<Longrightarrow> cells h' x = cells h x"
  shows "stage_isolated g h' S"
proof -
  have S: "S \<subseteq> {..<nxt h}" and g: "g \<in> S" using assms(1) by (auto simp: stage_isolated_def)
  then have eq: "\<And>a. a \<in> S \<Longrightarrow> cells h' a = cells h a" using assms(3) by auto
  show ?thesis
    unfolding stage_isolated_def
  proof (intro conjI ballI allI impI)
    show "g \<in> S" by (rule g)
    show "S \<subseteq> {..<nxt h'}" using S assms(2) by auto
    show "\<exists>go. cells h' g = Some go \<and> set (children go) \<subseteq> {..<nxt h'}"
      using assms(1,2) eq[OF g] unfolding stage_isolated_def by fastforce
  next
    fix a ob assume a: "a \<in> S" "cells h' a = Some ob"
    then have "cells h a = Some ob" using eq by simp
    then show "set_option (parent ob) \<subseteq> S"
      using assms(1) a(1) unfolding stage_isolated_def by blast
  next
    fix a ob assume a: "a \<in> S" "cells h' a = Some ob" "a \<noteq> g"
    then have "cells h a = Some ob" using eq by simp
    then show "set (children ob) \<subseteq> S"
      using assms(1) a(1,3) unfolding stage_isolated_def by blast
  qed
qed

lemma anchor_isolated_frame:
  assumes "anchor_isolated g r h" "nxt h \<le> nxt h'" "\<And>x. x < nxt h \<Longrightarrow> cells h' x = cells h x"
  shows "anchor_isolated g r h'" "anchorState r h' = anchorState r h"
proof -
  have r: "r < nxt h" using assms(1) by (simp add: anchor_isolated_def)
  then have eq: "cells h' r = cells h r" by (rule assms(3))
  show "anchorState r h' = anchorState r h" by (rule anchorState_cell[OF eq])
  obtain S where S: "stage_isolated g h S" "r \<notin> S" using assms(1) by (auto simp: anchor_isolated_def)
  have "stage_isolated g h' S" by (rule stage_isolated_frame[OF S(1) assms(2,3)])
  then show "anchor_isolated g r h'"
    using assms(1,2) r eq S(2) unfolding anchor_isolated_def by auto
qed

lemma anchor_isolated_clone:
  assumes "anchor_isolated g r h" "clone a h = Some (h', b)"
  shows "anchor_isolated g r h'" "anchorState r h' = anchorState r h"
  using anchor_isolated_frame[OF assms(1), of h'] clone_fresh(2,3)[OF assms(2)] by auto

lemma closed_isolated:
  assumes "closed h S" "g \<in> S" "S \<subseteq> {..<nxt h}" "cells h g \<noteq> None"
  shows "stage_isolated g h S"
proof -
  have "\<And>a ob. a \<in> S \<Longrightarrow> cells h a = Some ob \<Longrightarrow> ptrs ob \<subseteq> S"
    using assms(1) by (auto simp: closed_def)
  then have "\<And>a ob. a \<in> S \<Longrightarrow> cells h a = Some ob \<Longrightarrow> set (children ob) \<subseteq> S \<and> set_option (parent ob) \<subseteq> S"
    by (simp add: ptrs_def)
  then show ?thesis
    using assms(2,3,4) unfolding stage_isolated_def by fastforce
qed

text \<open>
  The store in which the attachment code runs: the stage with the draft on it. The stage
  side and the two clones together are closed, and the anchor is in neither.
\<close>

lemma draft_closed:
  assumes iso: "stage_isolated g h0 S"
    and c1: "clone r h0 = Some (h1, t)" and c2: "clone orig h1 = Some (h2, p)"
  shows "closed (add_child g t (clear g h2)) (S \<union> {nxt h0 ..< nxt h2})"
    "stage_change g h2 (add_child g t (clear g h2))"
    "t \<in> {nxt h0 ..< nxt h2}" "p \<in> {nxt h0 ..< nxt h2}" "nxt h0 \<le> nxt h2"
    "\<And>x. x < nxt h0 \<Longrightarrow> cells h2 x = cells h0 x"
proof -
  let ?F = "{nxt h0 ..< nxt h2}"
  let ?h3 = "add_child g t (clear g h2)"
  note f1 = clone_fresh[OF c1] and f2 = clone_fresh[OF c2]
  show le: "nxt h0 \<le> nxt h2" using f1(2) f2(2) by simp
  show t: "t \<in> ?F" using f1(1,2) f2(2) by simp
  show p: "p \<in> ?F" using f1(2) f2(1,2) by simp
  show low: "\<And>x. x < nxt h0 \<Longrightarrow> cells h2 x = cells h0 x"
    using f1(2,3) f2(3) by simp
  have iso2: "stage_isolated g h2 S" by (rule stage_isolated_frame[OF iso le low])
  have S: "S \<subseteq> {..<nxt h0}" and g: "g \<in> S" using iso by (auto simp: stage_isolated_def)
  have F: "\<exists>ob. cells h2 x = Some ob \<and> ptrs ob \<subseteq> ?F" if xF: "x \<in> ?F" for x
  proof (cases "x < nxt h1")
    case True
    then obtain ob where "cells h1 x = Some ob" "ptrs ob \<subseteq> {nxt h0 ..< nxt h1}"
      using f1(4)[of x] xF by auto
    moreover have "{nxt h0 ..< nxt h1} \<subseteq> ?F" using f2(2) by auto
    ultimately show ?thesis using f2(3)[OF True] by auto
  next
    case False
    then obtain ob where "cells h2 x = Some ob" "ptrs ob \<subseteq> {nxt h1 ..< nxt h2}"
      using f2(4)[of x] xF by auto
    moreover have "{nxt h1 ..< nxt h2} \<subseteq> ?F" using f1(2) by auto
    ultimately show ?thesis by auto
  qed
  obtain go where go: "cells h2 g = Some go" using iso2 by (auto simp: stage_isolated_def)
  obtain to where to: "cells h2 t = Some to" "parent to = None"
    using f1(5) f2(3)[of t] f1(1,2) by auto
  have ne: "t \<noteq> g" using t g S by auto
  note sh = show_effect[OF go to(1) ne disjI1[OF to(2)]]
  show ch: "stage_change g h2 ?h3" by (rule sh(1))
  obtain go' where go': "cells ?h3 g = Some go'" "children go' = [t]" using sh(2) by blast
  show "closed ?h3 (S \<union> ?F)"
    unfolding closed_def
  proof (intro ballI allI impI)
    fix a ob' assume a: "a \<in> S \<union> ?F" and ob': "cells ?h3 a = Some ob'"
    obtain ob where ob: "cells h2 a = Some ob"
      "parent ob' = parent ob \<or> parent ob' = None \<or> parent ob' = Some g"
      "a \<noteq> g \<longrightarrow> children ob' = children ob"
      using ch ob' unfolding stage_change_def by (cases "cells h2 a") fastforce+
    have old: "set_option (parent ob) \<subseteq> S \<union> ?F \<and> (a \<noteq> g \<longrightarrow> set (children ob) \<subseteq> S \<union> ?F)"
    proof (cases "a \<in> S")
      case True
      then show ?thesis using iso2 ob(1) unfolding stage_isolated_def by blast
    next
      case False
      then have "a \<in> ?F" using a by simp
      from F[OF this] ob(1) show ?thesis by (auto simp: ptrs_def)
    qed
    have "set (children ob') \<subseteq> S \<union> ?F"
    proof (cases "a = g")
      case True
      then show ?thesis using go' ob' t by simp
    next
      case False
      then show ?thesis using old ob(3) by simp
    qed
    moreover have "set_option (parent ob') \<subseteq> S \<union> ?F"
      using ob(2) old g by auto
    ultimately show "ptrs ob' \<subseteq> S \<union> ?F" by (simp add: ptrs_def)
  qed
qed

lemma attach_confinedD:
  assumes "attach_confined e" "runAttach e c r p h = (h', res)"
  shows "nxt h \<le> nxt h'"
    "\<And>a. cells h a \<noteq> None \<Longrightarrow> cells h' a \<noteq> None"
    "\<And>a. a \<notin> reach h {r, p} \<union> fresh h h' \<Longrightarrow> cells h' a = cells h a"
    "\<And>a ob. a \<in> reach h {r, p} \<union> fresh h h' \<Longrightarrow> cells h' a = Some ob \<Longrightarrow>
       ptrs ob \<subseteq> reach h {r, p} \<union> fresh h h'"
proof -
  have "case runAttach e c r p h of
        (h', res) \<Rightarrow>
          nxt h \<le> nxt h' \<and>
          (\<forall>a. cells h a \<noteq> None \<longrightarrow> cells h' a \<noteq> None) \<and>
          (\<forall>a. a \<notin> reach h {r, p} \<union> fresh h h' \<longrightarrow> cells h' a = cells h a) \<and>
          (\<forall>a \<in> reach h {r, p} \<union> fresh h h'. \<forall>ob. cells h' a = Some ob \<longrightarrow>
             ptrs ob \<subseteq> reach h {r, p} \<union> fresh h h')"
    by (rule assms(1)[unfolded attach_confined_def, THEN spec[where x = c],
          THEN spec[where x = r], THEN spec[where x = p], THEN spec[where x = h]])
  then have c: "nxt h \<le> nxt h' \<and>
          (\<forall>a. cells h a \<noteq> None \<longrightarrow> cells h' a \<noteq> None) \<and>
          (\<forall>a. a \<notin> reach h {r, p} \<union> fresh h h' \<longrightarrow> cells h' a = cells h a) \<and>
          (\<forall>a \<in> reach h {r, p} \<union> fresh h h'. \<forall>ob. cells h' a = Some ob \<longrightarrow>
             ptrs ob \<subseteq> reach h {r, p} \<union> fresh h h')"
    unfolding assms(2) by simp
  show "nxt h \<le> nxt h'" using c by blast
  show "\<And>a. cells h a \<noteq> None \<Longrightarrow> cells h' a \<noteq> None" using c by blast
  show "\<And>a. a \<notin> reach h {r, p} \<union> fresh h h' \<Longrightarrow> cells h' a = cells h a" using c by blast
  show "\<And>a ob. a \<in> reach h {r, p} \<union> fresh h h' \<Longrightarrow> cells h' a = Some ob \<Longrightarrow>
       ptrs ob \<subseteq> reach h {r, p} \<union> fresh h h'" using c by blast
qed

lemma attach_run:
  assumes conf: "attach_confined e" and iso: "anchor_isolated g r h0"
    and c1: "clone r h0 = Some (h1, t)" and c2: "clone orig h1 = Some (h2, p)"
    and run: "runAttach e c t p (add_child g t (clear g h2)) = (h4, res)"
  shows "anchor_isolated g r h4" "anchorState r h4 = anchorState r h0"
proof -
  let ?h3 = "add_child g t (clear g h2)"
  let ?F = "{nxt h0 ..< nxt h2}"
  let ?R = "reach ?h3 {t, p}"
  let ?N = "fresh ?h3 h4"
  obtain S ro where S: "stage_isolated g h0 S" "r \<notin> S" and r: "r < nxt h0"
    and ro: "cells h0 r = Some ro" "parent ro = None \<or> parent ro = Some g"
    using iso unfolding anchor_isolated_def by blast
  have SS: "S \<subseteq> {..<nxt h0}" and g: "g \<in> S" using S(1) by (auto simp: stage_isolated_def)
  note d = draft_closed[OF S(1) c1 c2]
  have n3: "nxt ?h3 = nxt h2" using d(2) by (simp add: stage_change_def)
  note k = attach_confinedD[OF conf run]
  note k1 = k(1) and k2 = k(2) and k3 = k(3) and k4 = k(4)
  have R: "?R \<subseteq> S \<union> ?F"
    using d(3,4) by (intro reach_closed[OF d(1)]) auto
  have N: "?N = {nxt h2 ..< nxt h4}" by (simp add: fresh_def n3)
  have rg: "r \<noteq> g" using S(2) g by auto
  have out: "r \<notin> S \<union> ?F \<union> ?N" using r S(2) d(5) by (auto simp: N)
  then have cell: "cells h4 r = cells ?h3 r" using R by (intro k3) auto
  have "anchorState r h4 = anchorState r ?h3" by (rule anchorState_cell[OF cell])
  also have "\<dots> = anchorState r h2" by (rule anchorState_change[OF d(2) rg])
  also have "\<dots> = anchorState r h0" by (rule anchorState_cell[OF d(6)[OF r]])
  finally show "anchorState r h4 = anchorState r h0" .
  have cl: "closed h4 (S \<union> ?F \<union> ?N)"
    unfolding closed_def
  proof (intro ballI allI impI)
    fix a ob assume a: "a \<in> S \<union> ?F \<union> ?N" and ob: "cells h4 a = Some ob"
    show "ptrs ob \<subseteq> S \<union> ?F \<union> ?N"
    proof (cases "a \<in> ?R \<union> ?N")
      case True
      from k4[OF True ob] R show ?thesis by auto
    next
      case False
      then have "cells ?h3 a = Some ob" using k3[of a] ob by simp
      moreover have "a \<in> S \<union> ?F" using a False by auto
      ultimately have "ptrs ob \<subseteq> S \<union> ?F" using d(1) unfolding closed_def by blast
      then show ?thesis by auto
    qed
  qed
  have "cells h2 g \<noteq> None"
    using S(1) d(6)[of g] SS g unfolding stage_isolated_def by auto
  then have "cells ?h3 g \<noteq> None" using d(2) unfolding stage_change_def by fastforce
  then have g4: "cells h4 g \<noteq> None" by (rule k2)
  have sub: "S \<union> ?F \<union> ?N \<subseteq> {..<nxt h4}" using SS d(5) k1 by (auto simp: N n3)
  have iso4: "stage_isolated g h4 (S \<union> ?F \<union> ?N)"
    using g by (intro closed_isolated[OF cl _ sub g4]) simp
  have "cells h2 r = Some ro" using d(6)[OF r] ro(1) by simp
  then obtain ro' where "cells ?h3 r = Some ro'"
    "parent ro' = parent ro \<or> parent ro' = None \<or> parent ro' = Some g"
    using d(2) unfolding stage_change_def by blast
  then have "\<exists>ro. cells h4 r = Some ro \<and> (parent ro = None \<or> parent ro = Some g)"
    using cell ro(2) by auto
  moreover have "r < nxt h4" using r d(5) k1 n3 by simp
  ultimately show "anchor_isolated g r h4"
    using iso4 out unfolding anchor_isolated_def by blast
qed

lemma stage_isolated_change:
  assumes iso: "stage_isolated g h S" and ch: "stage_change g h h'"
    and g: "cells h' g = Some go'" "set (children go') \<subseteq> {..<nxt h'}"
  shows "stage_isolated g h' S"
  unfolding stage_isolated_def
proof (intro conjI ballI allI impI)
  show "g \<in> S" using iso by (simp add: stage_isolated_def)
  show "S \<subseteq> {..<nxt h'}" using iso ch by (simp add: stage_isolated_def stage_change_def)
  show "\<exists>go. cells h' g = Some go \<and> set (children go) \<subseteq> {..<nxt h'}" using g by simp
next
  fix a ob' assume a: "a \<in> S" "cells h' a = Some ob'"
  then obtain ob where ob: "cells h a = Some ob"
      "parent ob' = parent ob \<or> parent ob' = None \<or> parent ob' = Some g"
    using ch unfolding stage_change_def by (cases "cells h a") fastforce+
  then have "set_option (parent ob) \<subseteq> S" using iso a(1) unfolding stage_isolated_def by blast
  moreover have "g \<in> S" using iso by (simp add: stage_isolated_def)
  ultimately show "set_option (parent ob') \<subseteq> S" using ob(2) by auto
next
  fix a ob' assume a: "a \<in> S" "cells h' a = Some ob'" "a \<noteq> g"
  then obtain ob where ob: "cells h a = Some ob" "children ob' = children ob"
    using ch unfolding stage_change_def by (cases "cells h a") fastforce+
  then show "set (children ob') \<subseteq> S" using iso a(1,3) unfolding stage_isolated_def by simp
qed

text \<open>Putting the anchor back on the stage.\<close>

lemma restore_anchor:
  assumes iso: "anchor_isolated g r h"
  shows "anchor_isolated g r (add_child g r (clear g h))"
    "anchorState r (add_child g r (clear g h)) = anchorState r h"
    "\<exists>go. cells (add_child g r (clear g h)) g = Some go \<and> children go = [r]"
    "\<exists>ro. cells (add_child g r (clear g h)) r = Some ro \<and> parent ro = Some g"
proof -
  let ?h' = "add_child g r (clear g h)"
  obtain S ro where S: "stage_isolated g h S" "r \<notin> S" and r: "r < nxt h"
    and ro: "cells h r = Some ro" "parent ro = None \<or> parent ro = Some g"
    using iso unfolding anchor_isolated_def by blast
  obtain go where go: "cells h g = Some go" using S(1) by (auto simp: stage_isolated_def)
  have rg: "r \<noteq> g" using S by (auto simp: stage_isolated_def)
  note sh = show_effect[OF go ro(1) rg ro(2)]
  show "anchorState r ?h' = anchorState r h" by (rule anchorState_change[OF sh(1) rg])
  show c: "\<exists>go. cells ?h' g = Some go \<and> children go = [r]" by (rule sh(2))
  show p: "\<exists>ro. cells ?h' r = Some ro \<and> parent ro = Some g" by (rule sh(3))
  have n: "nxt ?h' = nxt h" using sh(1) by (simp add: stage_change_def)
  obtain go' where go': "cells ?h' g = Some go'" "children go' = [r]" using c by blast
  have "stage_isolated g ?h' S"
    using r by (intro stage_isolated_change[OF S(1) sh(1) go'(1)]) (simp add: go'(2) n)
  then show "anchor_isolated g r ?h'"
    using p r n S(2) unfolding anchor_isolated_def by auto
qed

lemma commit_isolated:
  assumes iso: "anchor_isolated g r h"
  shows "anchor_isolated g r (commit r t h)"
proof (cases "cells h t")
  case None
  then show ?thesis using iso by (simp add: commit_def)
next
  case (Some to)
  let ?h' = "commit r t h"
  obtain S ro where S: "stage_isolated g h S" "r \<notin> S" and r: "r < nxt h"
    and ro: "cells h r = Some ro" "parent ro = None \<or> parent ro = Some g"
    using iso unfolding anchor_isolated_def by blast
  have n: "nxt ?h' = nxt h" and other: "\<And>x. x \<noteq> r \<Longrightarrow> cells ?h' x = cells h x"
    and self: "\<exists>ro'. cells ?h' r = Some ro' \<and> parent ro' = parent ro"
    using Some ro(1) by (simp_all add: commit_def)
  have eq: "cells ?h' a = cells h a" if a: "a \<in> S" for a
  proof -
    have "a \<noteq> r" using a S(2) by auto
    then show ?thesis by (rule other)
  qed
  have "stage_isolated g ?h' S"
    using S(1) unfolding stage_isolated_def n by (simp add: eq)
  then show ?thesis
    using self ro(2) r n S(2) unfolding anchor_isolated_def by auto
qed

lemma tryAttach_isolated:
  assumes conf: "attach_confined e" and init: "initialized (stage st)"
    and iso: "anchor_isolated (rootGroup (stage st)) r (objs st)"
    and run: "tryAttach e pl partComp art modelId r st snaps ec = (st', res)"
  shows "anchor_isolated (rootGroup (stage st')) r (objs st') \<and>
         anchorState r (objs st') = anchorState r (objs st) \<and>
         initialized (stage st') \<and> rootGroup (stage st') = rootGroup (stage st)"
proof -
  let ?g = "rootGroup (stage st)"
  have A: "anchor_isolated ?g r h1 \<and> anchorState r h1 = anchorState r (objs st)"
    if "clone r (objs st) = Some (h1, t)" for h1 t
    using anchor_isolated_clone[OF iso that] by simp
  have B: "anchor_isolated ?g r h4 \<and> anchorState r h4 = anchorState r (objs st)"
    if "clone r (objs st) = Some (h1, t)" "clone orig h1 = Some (h2, p)"
       "runAttach e c t p (add_child ?g t (clear ?g h2)) = (h4, x)" for h1 t orig h2 p c h4 x
    using attach_run[OF conf iso that] by simp
  have C: "initialized sg \<and> rootGroup sg = ?g"
    if "captureSnapshots e h (stage st) = (cres, sg)" for h cres sg
    using captureSnapshots_stage[OF that] init by simp
  have "anchor_isolated ?g r (objs st') \<and>
         anchorState r (objs st') = anchorState r (objs st) \<and>
         initialized (stage st') \<and> rootGroup (stage st') = ?g"
    using run init iso
    by (auto simp: tryAttach_def Let_def logCall_def executeAttachmentCode_def resetScene_def
        addObject_def generateAttachmentCode_def generateContent_def performAssemblyQC_def
        split: sum.splits option.splits prod.splits dest: A B C)
  then show ?thesis by simp
qed

lemma attachAttempt_isolated:
  assumes conf: "attach_confined e" and kept: "anchor_kept r (pipeline s)"
  shows "anchor_kept r (pipeline (attachAttempt e pl partComp art modelId r s))"
    "\<not> attached (attachAttempt e pl partComp art modelId r s) \<Longrightarrow>
       anchorState r (objs (pipeline (attachAttempt e pl partComp art modelId r s))) =
         anchorState r (objs (pipeline s)) \<and>
       currentAssemblySnapshots (attachAttempt e pl partComp art modelId r s) =
         currentAssemblySnapshots s"
proof -
  obtain st1 res where t: "tryAttach e pl partComp art modelId r (pipeline s)
      (currentAssemblySnapshots s) (errorContext s) = (st1, res)"
    by (cases "tryAttach e pl partComp art modelId r (pipeline s)
      (currentAssemblySnapshots s) (errorContext s)") auto
  have init: "initialized (stage (pipeline s))"
    and iso: "anchor_isolated (rootGroup (stage (pipeline s))) r (objs (pipeline s))"
    using kept by (simp_all add: anchor_kept_def)
  note k = tryAttach_isolated[OF conf init iso t]
  have c: "anchor_isolated (rootGroup (stage st1)) r (commit r testRoot (objs st1))" for testRoot
    by (rule commit_isolated[OF k[THEN conjunct1]])
  show "anchor_kept r (pipeline (attachAttempt e pl partComp art modelId r s))"
    using k c by (auto simp: attachAttempt_def t anchor_kept_def split: sum.splits)
  show "\<not> attached (attachAttempt e pl partComp art modelId r s) \<Longrightarrow>
       anchorState r (objs (pipeline (attachAttempt e pl partComp art modelId r s))) =
         anchorState r (objs (pipeline s)) \<and>
       currentAssemblySnapshots (attachAttempt e pl partComp art modelId r s) =
         currentAssemblySnapshots s"
    using k by (auto simp: attachAttempt_def t split: sum.splits if_splits)
qed

lemma attachLoop_attached:
  "attached s \<Longrightarrow> attachLoop e pl partComp art modelId r s = s"
  by (subst attachLoop.simps) simp

lemma attachLoop_isolated:
  "attach_confined e \<Longrightarrow> anchor_kept r (pipeline s) \<Longrightarrow>
     anchor_kept r (pipeline (attachLoop e pl partComp art modelId r s)) \<and>
     (\<not> attached (attachLoop e pl partComp art modelId r s) \<longrightarrow>
        anchorState r (objs (pipeline (attachLoop e pl partComp art modelId r s))) =
          anchorState r (objs (pipeline s)) \<and>
        currentAssemblySnapshots (attachLoop e pl partComp art modelId r s) =
          currentAssemblySnapshots s \<and>
        (retries s \<le> 4 \<longrightarrow>
           retries (attachLoop e pl partComp art modelId r s) = 4 \<and>
           attachLoop e pl partComp art modelId r s =
             (attachAttempt e pl partComp art modelId r ^^ (4 - retries s)) s))"
proof (induction e pl partComp art modelId r s rule: attachLoop.induct)
  case (1 e pl partComp art modelId r s)
  let ?a = "attachAttempt e pl partComp art modelId r s"
  let ?l = "attachLoop e pl partComp art modelId r"
  show ?case
  proof (cases "\<not> attached s \<and> retries s < 4")
    case True
    have l: "?l s = ?l ?a" using True by (subst attachLoop.simps) simp
    note at = attachAttempt_isolated[OF "1.prems", of pl partComp art modelId]
    note IH = "1.IH"[OF True "1.prems"(1) at(1)]
    have step: "\<not> attached ?a" if "\<not> attached (?l ?a)"
      using that attachLoop_attached[of ?a e pl partComp art modelId r] by auto
    have ret: "retries ?a = Suc (retries s)" if "\<not> attached ?a"
      using that attachAttempt_progress[of e pl partComp art modelId r s] by simp
    have pow: "(attachAttempt e pl partComp art modelId r ^^ (4 - Suc (retries s))) ?a =
        (attachAttempt e pl partComp art modelId r ^^ (4 - retries s)) s"
    proof -
      have "4 - retries s = Suc (4 - Suc (retries s))" using True by arith
      then show ?thesis by (simp add: funpow_swap1)
    qed
    show ?thesis
      unfolding l using IH at(2) step ret pow True by auto
  next
    case False
    then have l: "?l s = s" by (subst attachLoop.simps) auto
    show ?thesis unfolding l using "1.prems"(2) False by auto
  qed
qed

lemma attachPart_isolated:
  assumes conf: "attach_confined e" and kept: "anchor_kept r (fst s)"
  shows "anchor_kept r (fst (attachPart e pl pc modelId r partComp s))"
proof -
  obtain st snaps where s: "s = (st, snaps)" by (cases s)
  have k: "anchor_kept r st" using kept s by simp
  have l: "anchor_kept r (pipeline (attachLoop e pl partComp art modelId r
      \<lparr>pipeline = st, currentAssemblySnapshots = snaps, errorContext = [], retries = 0,
        attached = False\<rparr>))" for art
    using attachLoop_isolated[OF conf, of r "\<lparr>pipeline = st, currentAssemblySnapshots = snaps,
      errorContext = [], retries = 0, attached = False\<rparr>" pl partComp art modelId] k
    by simp
  have r: "anchor_kept r (st'\<lparr>objs := addObject (stage st') r (resetScene (stage st') (objs st'))\<rparr>)"
    if "anchor_kept r st'" for st'
    using that restore_anchor(1)[of "rootGroup (stage st')" r "objs st'"]
    by (simp add: anchor_kept_def addObject_def resetScene_def)
  show ?thesis
    unfolding s using k l r
    by (auto simp: attachPart_def Let_def split: option.splits)
qed

lemma attachParts_isolated:
  "attach_confined e \<Longrightarrow> anchor_kept r (fst s) \<Longrightarrow>
     anchor_kept r (fst (attachParts e pl pc modelId r ps s))"
  unfolding attachParts_def
proof (induction ps arbitrary: s)
  case Nil
  then show ?case by simp
next
  case (Cons p ps)
  show ?case
    using Cons.IH[OF Cons.prems(1) attachPart_isolated[OF Cons.prems, of pl pc modelId p]]
    by simp
qed

lemma placeAnchor_isolated:
  assumes init: "initialized (stage st)"
    and iso: "stage_isolated (rootGroup (stage st)) (objs st) S"
    and cl: "clone orig (objs st) = Some (h1, r)"
  shows "anchor_kept r (fst (placeAnchor e r st h1))"
proof -
  let ?g = "rootGroup (stage st)"
  note f = clone_fresh[OF cl]
  have S: "S \<subseteq> {..<nxt (objs st)}" using iso by (simp add: stage_isolated_def)
  have h2: "anchor_isolated ?g r (update_obj r (\<lambda>ob. ob\<lparr>position := vsub (position ob) c\<rparr>) h1)"
    for c
  proof -
    have "stage_isolated ?g (update_obj r (\<lambda>ob. ob\<lparr>position := vsub (position ob) c\<rparr>) h1) S"
      using f(1,2,3) by (intro stage_isolated_frame[OF iso]) auto
    moreover have "r \<notin> S" using f(1) S by auto
    ultimately show ?thesis
      using f(1,2,5) unfolding anchor_isolated_def by auto
  qed
  let ?h3 = "add_child ?g r (clear ?g (update_obj r (\<lambda>ob. ob\<lparr>position := vsub (position ob)
      (case boundingBox e h1 r of None \<Rightarrow> (0, 0, 0)
       | Some (lo, hi) \<Rightarrow> vscale (1 / 2) (vadd lo hi))\<rparr>) h1))"
  obtain cres sg where cap: "captureSnapshots e ?h3 (stage st) = (cres, sg)"
    by (cases "captureSnapshots e ?h3 (stage st)") auto
  have sg: "initialized sg" "rootGroup sg = ?g"
    using captureSnapshots_stage[OF cap] init by simp_all
  have "placeAnchor e r st h1 = (st\<lparr>objs := ?h3, stage := sg\<rparr>, cres)"
    using init cap by (simp add: placeAnchor_def Let_def addObject_def resetScene_def)
  then show ?thesis
    using sg restore_anchor(1)[OF h2] by (simp add: anchor_kept_def)
qed

lemma placeAnchor_returns:
  assumes "\<forall>h sg. \<exists>img. render e h sg = Inr img"
  shows "\<exists>st' imgs. placeAnchor e r st h1 = (st', Inr imgs)"
proof -
  let ?h3 = "addObject (stage st) r (resetScene (stage st) (update_obj r
      (\<lambda>ob. ob\<lparr>position := vsub (position ob)
        (case boundingBox e h1 r of None \<Rightarrow> (0, 0, 0)
         | Some (lo, hi) \<Rightarrow> vscale (1 / 2) (vadd lo hi))\<rparr>) h1))"
  have "\<forall>sg. \<exists>img. render e ?h3 sg = Inr img" using assms by blast
  then obtain imgs sg' where "captureSnapshots e ?h3 (stage st) = (Inr imgs, sg')"
    using captureSnapshots_returns by blast
  then show ?thesis
    by (simp add: placeAnchor_def Let_def)
qed

lemma attachParts_append:
  "attachParts e pl pc modelId r (before @ p # rest) s =
     attachParts e pl pc modelId r rest
       (attachPart e pl pc modelId r p (attachParts e pl pc modelId r before s))"
  by (simp add: attachParts_def)

lemma attachAttempt_needs_pass:
  assumes "\<forall>n ov nm imgs q. assemblyQC e n ov nm imgs = Inr q \<longrightarrow> \<not> passed q"
    and "\<not> attached s"
  shows "\<not> attached (attachAttempt e pl partComp art modelId r s)"
  using assms
  by (auto simp: attachAttempt_def tryAttach_def Let_def performAssemblyQC_def
      split: prod.splits sum.splits option.splits)

lemma attachLoop_needs_pass:
  "\<forall>n ov nm imgs q. assemblyQC e n ov nm imgs = Inr q \<longrightarrow> \<not> passed q \<Longrightarrow> \<not> attached s \<Longrightarrow>
     \<not> attached (attachLoop e pl partComp art modelId r s)"
proof (induction e pl partComp art modelId r s rule: attachLoop.induct)
  case (1 e pl partComp art modelId r s)
  show ?case
  proof (cases "\<not> attached s \<and> retries s < 4")
    case True
    have "\<not> attached (attachAttempt e pl partComp art modelId r s)"
      by (rule attachAttempt_needs_pass[OF "1.prems"])
    from "1.IH"[OF True "1.prems"(1) this] show ?thesis
      using True by (subst attachLoop.simps) simp
  next
    case False
    then show ?thesis using "1.prems"(2) by (subst attachLoop.simps) auto
  qed
qed

lemma reach_step:
  assumes "a \<in> reach h R" "cells h a = Some ob"
  shows "ptrs ob \<subseteq> reach h R"
proof
  fix b assume "b \<in> ptrs ob"
  then have "(a, b) \<in> edges h" using assms(2) by (auto simp: edges_def)
  then show "b \<in> reach h R"
    using assms(1) unfolding reach_def by (meson Image_iff rtrancl.rtrancl_into_rtrancl)
qed

lemma reach_self: "a \<in> R \<Longrightarrow> a \<in> reach h R"
  by (auto simp: reach_def)

text \<open>Attachment code that only adds the part to the root is confined.\<close>

lemma add_child_confined:
  assumes "\<forall>c r p h. runAttach e c r p h = (add_child r p h, None)"
  shows "attach_confined e"
  unfolding attach_confined_def
proof (intro allI)
  fix c r p h
  let ?h' = "add_child r p h"
  let ?R = "reach h {r, p}"
  have "nxt h \<le> nxt ?h' \<and>
          (\<forall>a. cells h a \<noteq> None \<longrightarrow> cells ?h' a \<noteq> None) \<and>
          (\<forall>a. a \<notin> ?R \<union> fresh h ?h' \<longrightarrow> cells ?h' a = cells h a) \<and>
          (\<forall>a \<in> ?R \<union> fresh h ?h'. \<forall>ob. cells ?h' a = Some ob \<longrightarrow> ptrs ob \<subseteq> ?R \<union> fresh h ?h')"
  proof (cases "p = r \<or> cells h p = None")
    case True
    then have same: "?h' = h" by (auto simp: add_child_def)
    show ?thesis
      unfolding same using reach_step[of _ h "{r, p}"] by (auto simp: fresh_def)
  next
    case False
    then obtain po where po: "cells h p = Some po" and ne: "p \<noteq> r" by auto
    note ef = add_child_effect[OF po ne]
    have fr: "fresh h ?h' = {}" by (simp add: fresh_def ef(1))
    have rp: "r \<in> ?R" "p \<in> ?R" by (simp_all add: reach_self)
    have q: "set_option (parent po) \<subseteq> ?R"
      using reach_step[OF rp(2) po] by (auto simp: ptrs_def)
    have keep: "cells ?h' a \<noteq> None" if "cells h a \<noteq> None" for a
      using ef(4)[of a] that by auto
    have out: "cells ?h' a = cells h a" if "a \<notin> ?R" for a
      using that rp q by (intro ef(3)) auto
    have inside: "ptrs ob' \<subseteq> ?R" if a: "a \<in> ?R" and ob': "cells ?h' a = Some ob'" for a ob'
    proof -
      obtain ob where ob: "cells h a = Some ob"
        using ef(2)[of a] ob' by (cases "cells h a") auto
      from ef(4)[OF ob] ob' have "set_option (parent ob') \<subseteq> set_option (parent ob) \<union> {r}"
        and "set (children ob') \<subseteq> set (children ob) \<union> {p}"
        by (auto split: if_splits)
      then have "ptrs ob' \<subseteq> ptrs ob \<union> {r, p}" by (auto simp: ptrs_def)
      then show ?thesis using reach_step[OF a ob] rp by auto
    qed
    show ?thesis
      unfolding fr using ef(1) keep out inside by auto
  qed
  then show "case runAttach e c r p h of
        (h', res) \<Rightarrow>
          nxt h \<le> nxt h' \<and>
          (\<forall>a. cells h a \<noteq> None \<longrightarrow> cells h' a \<noteq> None) \<and>
          (\<forall>a. a \<notin> reach h {r, p} \<union> fresh h h' \<longrightarrow> cells h' a = cells h a) \<and>
          (\<forall>a \<in> reach h {r, p} \<union> fresh h h'. \<forall>ob. cells h' a = Some ob \<longrightarrow>
             ptrs ob \<subseteq> reach h {r, p} \<union> fresh h h')"
    using assms by simp
qed

lemma demo_env_confined: "attach_confined demo_env"
  by (rule add_child_confined) (simp add: demo_env_def)

lemma demo_env_rejects:
  "\<forall>n ov nm imgs q. assemblyQC demo_env n ov nm imgs = Inr q \<longrightarrow> \<not> passed q"
  by (auto simp: demo_env_def)

lemma demo_assembly_isolated:
  "stage_isolated 0 (objs demo_assembly) {0}"
  by (simp add: stage_isolated_def demo_assembly_def newObject_def)

text \<open>The attachment logic of an attempt is never run on the anchor.\<close>

lemma snapshotLoop_runAttach:
  "snapshotLoop (e\<lparr>runAttach := f\<rparr>) h c d offs sg = snapshotLoop e h c d offs sg"
  by (induction offs arbitrary: sg) (simp_all add: Let_def cong: sum.case_cong)

lemma captureSnapshots_runAttach:
  "captureSnapshots (e\<lparr>runAttach := f\<rparr>) h sg = captureSnapshots e h sg"
  by (simp add: captureSnapshots_def snapshotLoop_runAttach)

lemma tryAttach_on_clone:
  assumes r: "r < nxt (objs st)"
    and f: "\<forall>c t p h. t \<noteq> r \<longrightarrow> f c t p h = runAttach e c t p h"
  shows "tryAttach (e\<lparr>runAttach := f\<rparr>) pl partComp art modelId r st snaps ec =
         tryAttach e pl partComp art modelId r st snaps ec"
proof -
  have t: "t \<noteq> r" if "clone r (objs st) = Some (h1, t)" for h1 t
    using clone_fresh(1)[OF that] r by simp
  have x: "executeAttachmentCode (e\<lparr>runAttach := f\<rparr>) c t p h = executeAttachmentCode e c t p h"
    if "t \<noteq> r" for c t p h
    using that f by (simp add: executeAttachmentCode_def)
  show ?thesis
    unfolding tryAttach_def Let_def generateAttachmentCode_def generateContent_def performAssemblyQC_def
    by (auto simp: captureSnapshots_runAttach logCall_def x dest!: t
        split: sum.splits option.splits prod.splits)
qed

lemma clone_leaf:
  "cells h a = Some ob \<Longrightarrow> children ob = [] \<Longrightarrow>
     clone a h = Some (put_new (ob\<lparr>children := [], parent := None\<rparr>) h, nxt h)"
  by (simp add: clone_def alloc_def)

text \<open>
  Claim C2 (commit atomicity). The attachment code is confined, the stage is mounted and the
  anchor is isolated from it. Then an attachment attempt that does not attach the part (the
  verdict is not passed, or the generation, a clone, the execution or the QC call throws)
  leaves the child list, position, rotation and scale of the anchor as they were before the
  attempt; and the attempt hands the attachment code a clone, never the anchor: what the
  code would do when run on the anchor has no influence on the attempt. (The parent of the
  anchor is not among the values of the claim: resetting the stage takes the anchor off
  the group.)
\<close>

theorem commit_atomicity:
  assumes conf: "attach_confined e" and kept: "anchor_kept rootObject (pipeline s)"
    and fail: "\<not> attached (attachAttempt e pl partComp partArtifact modelId rootObject s)"
  shows "anchorState rootObject
           (objs (pipeline (attachAttempt e pl partComp partArtifact modelId rootObject s))) =
         anchorState rootObject (objs (pipeline s)) \<and>
         (\<forall>f. (\<forall>c t p h. t \<noteq> rootObject \<longrightarrow> f c t p h = runAttach e c t p h) \<longrightarrow>
              attachAttempt (e\<lparr>runAttach := f\<rparr>) pl partComp partArtifact modelId rootObject s =
              attachAttempt e pl partComp partArtifact modelId rootObject s)"
proof (intro conjI allI impI)
  show "anchorState rootObject
           (objs (pipeline (attachAttempt e pl partComp partArtifact modelId rootObject s))) =
         anchorState rootObject (objs (pipeline s))"
    using attachAttempt_isolated(2)[OF conf kept fail] by simp
next
  fix f assume f: "\<forall>c t p h. t \<noteq> rootObject \<longrightarrow> f c t p h = runAttach e c t p h"
  have "rootObject < nxt (objs (pipeline s))"
    using kept by (simp add: anchor_kept_def anchor_isolated_def)
  from tryAttach_on_clone[OF this f]
  show "attachAttempt (e\<lparr>runAttach := f\<rparr>) pl partComp partArtifact modelId rootObject s =
        attachAttempt e pl partComp partArtifact modelId rootObject s"
    by (simp add: attachAttempt_def)
qed

theorem commit_atomicity_witness:
  "anchorState 1 (objs (pipeline (attachAttempt demo_env demo_plan
       (mkComponent ''shade'' [''base'']) (initialArtifact (mkComponent ''shade'' [''base'']))
       ''m'' 1
       \<lparr>pipeline = demo_assembly, currentAssemblySnapshots = [], errorContext = [],
        retries = 0, attached = False\<rparr>))) =
     Some ([], (0, 0, 0), (0, 0, 0), (1, 1, 1))"
proof -
  let ?s = "\<lparr>pipeline = demo_assembly, currentAssemblySnapshots = [], errorContext = [],
        retries = 0, attached = False\<rparr>"
  have "stage_isolated 0 (objs demo_assembly) {0}" by (rule demo_assembly_isolated)
  then have "anchor_isolated 0 1 (objs demo_assembly)"
    unfolding anchor_isolated_def
    by (intro conjI exI[of _ "{0}"]) (simp_all add: demo_assembly_def newObject_def)
  then have kept: "anchor_kept 1 (pipeline ?s)"
    by (simp add: anchor_kept_def) (simp add: demo_assembly_def demo_stage_def)
  have fail: "\<not> attached (attachAttempt demo_env demo_plan (mkComponent ''shade'' [''base''])
       (initialArtifact (mkComponent ''shade'' [''base''])) ''m'' 1 ?s)"
    by (rule attachAttempt_needs_pass[OF demo_env_rejects]) simp
  have "anchorState 1 (objs (pipeline ?s)) = Some ([], (0, 0, 0), (0, 0, 0), (1, 1, 1))"
    by (simp add: anchorState_def demo_assembly_def newObject_def)
  then show ?thesis
    using commit_atomicity[OF demo_env_confined kept fail] by simp
qed

text \<open>
  Claim C7 (attachment retry exhaustion is non-fatal). The run has reached the assembly
  with a mounted stage whose group is isolated, the anchor has been made and its first
  snapshots taken, and the parts before a VERIFIED part have been dealt with. If the loop
  of attempts for that part ends without attaching it, then four attempts were made, and
  the part is skipped: the snapshots of the assembly and the child list and transform of
  the anchor are those from before the part, the stage shows the anchor again and nothing
  else, the loop goes on with the remaining parts from there, and the assembly ends without
  error in phase COMPLETED.
\<close>

theorem attachment_exhaustion_nonfatal:
  assumes conf: "attach_confined e" and init: "initialized (stage st)"
    and iso: "stage_isolated (rootGroup (stage st)) (objs st) S"
    and sorted: "sortComponentsTopologically (components pl) = rootComp # before @ partComp # rest"
    and orig: "validatedObjects st (id_c rootComp) = Some original"
    and cl: "clone original (objs st) = Some (h1, rootObject)"
    and placed: "placeAnchor e rootObject (setPhase ASSEMBLING st) h1 = (stA, Inr snapsA)"
    and s: "s = attachParts e pl pc modelId rootObject before (stA, snapsA)"
    and art: "pc (id_c partComp) = Some partArtifact" "status partArtifact = VERIFIED"
    and s0: "s0 = \<lparr>pipeline = fst s, currentAssemblySnapshots = snd s, errorContext = [],
                    retries = 0, attached = False\<rparr>"
    and fail: "\<not> attached (attachLoop e pl partComp partArtifact modelId rootObject s0)"
    and s': "s' = attachPart e pl pc modelId rootObject partComp s"
  shows "retries (attachLoop e pl partComp partArtifact modelId rootObject s0) = 4 \<and>
         attachLoop e pl partComp partArtifact modelId rootObject s0 =
           (attachAttempt e pl partComp partArtifact modelId rootObject ^^ 4) s0 \<and>
         snd s' = snd s \<and>
         anchorState rootObject (objs (fst s')) = anchorState rootObject (objs (fst s)) \<and>
         (\<exists>go. cells (objs (fst s')) (rootGroup (stage (fst s'))) = Some go \<and>
               children go = [rootObject]) \<and>
         assemble e pl pc modelId st =
           (setPhase COMPLETED (fst (attachParts e pl pc modelId rootObject rest s')), None) \<and>
         phase (fst (assemble e pl pc modelId st)) = COMPLETED"
proof -
  let ?r = "attachLoop e pl partComp partArtifact modelId rootObject s0"
  let ?st1 = "setPhase ASSEMBLING st"
  have "anchor_kept rootObject (fst (placeAnchor e rootObject ?st1 h1))"
    using init iso cl by (intro placeAnchor_isolated[where S = S and orig = original])
      (simp_all add: setPhase_def)
  then have "anchor_kept rootObject (fst (stA, snapsA))"
    unfolding placed by simp
  then have ks: "anchor_kept rootObject (fst s)"
    unfolding s by (rule attachParts_isolated[OF conf])
  then have k0: "anchor_kept rootObject (pipeline s0)" by (simp add: s0)
  note l = attachLoop_isolated[OF conf k0, of pl partComp partArtifact modelId]
  have kr: "anchor_kept rootObject (pipeline ?r)" using l by simp
  have f0: "retries s0 = 0" "currentAssemblySnapshots s0 = snd s" "pipeline s0 = fst s"
    by (simp_all add: s0)
  have le: "retries s0 \<le> 4" by (simp add: f0(1))
  from l fail le have all: "anchorState rootObject (objs (pipeline ?r)) =
        anchorState rootObject (objs (pipeline s0)) \<and>
      currentAssemblySnapshots ?r = currentAssemblySnapshots s0 \<and>
      retries ?r = 4 \<and>
      ?r = (attachAttempt e pl partComp partArtifact modelId rootObject ^^ (4 - retries s0)) s0"
    by blast
  have r4: "retries ?r = 4" using all by blast
  have "?r = (attachAttempt e pl partComp partArtifact modelId rootObject ^^ (4 - retries s0)) s0"
    using all by blast
  then have pow: "?r = (attachAttempt e pl partComp partArtifact modelId rootObject ^^ 4) s0"
    by (simp only: f0(1) diff_zero)
  have snaps: "currentAssemblySnapshots ?r = snd s"
    using conjunct1[OF conjunct2[OF all]] unfolding f0(2) .
  have anchor: "anchorState rootObject (objs (pipeline ?r)) = anchorState rootObject (objs (fst s))"
    using conjunct1[OF all] unfolding f0(3) .
  let ?g = "rootGroup (stage (pipeline ?r))"
  let ?h = "add_child ?g rootObject (clear ?g (objs (pipeline ?r)))"
  have ir: "initialized (stage (pipeline ?r))"
    and ar: "anchor_isolated ?g rootObject (objs (pipeline ?r))"
    using kr by (simp_all add: anchor_kept_def)
  obtain st0 snaps0 where sp: "s = (st0, snaps0)" by (cases s)
  have s0': "\<lparr>pipeline = st0, currentAssemblySnapshots = snaps0, errorContext = [],
      retries = 0, attached = False\<rparr> = s0"
    by (simp add: s0 sp)
  have part: "s' = ((pipeline ?r)\<lparr>objs := ?h\<rparr>, snd s)"
    unfolding s' sp using art fail ir snaps[unfolded sp]
    by (simp add: attachPart_def Let_def s0' addObject_def resetScene_def)
  note re = restore_anchor[OF ar]
  have vo: "validatedObjects ?st1 = validatedObjects st" "objs ?st1 = objs st"
    by (simp_all add: setPhase_def)
  have ap: "attachParts e pl pc modelId rootObject (before @ partComp # rest) (stA, snapsA) =
      attachParts e pl pc modelId rootObject rest s'"
    by (simp only: attachParts_append s' s)
  have asm: "assemble e pl pc modelId st =
           (setPhase COMPLETED (fst (attachParts e pl pc modelId rootObject rest s')), None)"
    by (simp add: assemble_def Let_def sorted vo orig cl placed ap case_prod_beta)
  have ph: "phase (fst (assemble e pl pc modelId st)) = COMPLETED"
    unfolding asm by (simp add: setPhase_def)
  have st': "snd s' = snd s" "objs (fst s') = ?h" "rootGroup (stage (fst s')) = ?g"
    by (simp_all add: part)
  show ?thesis
    unfolding st' using r4 pow asm re(2,3) anchor ph by (simp only: simp_thms)
qed

theorem attachment_exhaustion_nonfatal_witness:
  "phase (fst (assemble demo_env demo_plan demo_artifacts ''m'' demo_assembly)) = COMPLETED \<and>
   snd (assemble demo_env demo_plan demo_artifacts ''m'' demo_assembly) = None"
proof -
  let ?shade = "mkComponent ''shade'' [''base'']"
  let ?base = "mkComponent ''base'' []"
  let ?art = "(initialArtifact ?shade)\<lparr>status := VERIFIED\<rparr>"
  have sorted: "sortComponentsTopologically (components demo_plan) = ?base # [] @ ?shade # []"
    by (simp add: demo_plan_def sortComponentsTopologically_def visit.simps mkComponent_def Let_def)
  have init: "initialized (stage demo_assembly)"
    by (simp add: demo_assembly_def demo_stage_def)
  have iso: "stage_isolated (rootGroup (stage demo_assembly)) (objs demo_assembly) {0}"
    using demo_assembly_isolated by (simp add: demo_assembly_def demo_stage_def)
  have orig: "validatedObjects demo_assembly (id_c ?base) = Some 1"
    by (simp add: demo_assembly_def mkComponent_def)
  obtain h1 where cl: "clone 1 (objs demo_assembly) = Some (h1, 3)"
    using clone_leaf[of "objs demo_assembly" 1 "newObject (0, 0, 0)"]
    by (simp add: demo_assembly_def newObject_def)
  have "\<forall>h sg. \<exists>img. render demo_env h sg = Inr img"
    by (simp add: demo_env_def)
  then obtain stA snapsA where placed:
      "placeAnchor demo_env 3 (setPhase ASSEMBLING demo_assembly) h1 = (stA, Inr snapsA)"
    using placeAnchor_returns by blast
  have art: "demo_artifacts (id_c ?shade) = Some ?art" "status ?art = VERIFIED"
    by (simp_all add: demo_artifacts_def mkComponent_def)
  let ?s = "attachParts demo_env demo_plan demo_artifacts ''m'' 3 [] (stA, snapsA)"
  let ?s0 = "\<lparr>pipeline = fst ?s, currentAssemblySnapshots = snd ?s, errorContext = [],
                    retries = 0, attached = False\<rparr>"
  have fail: "\<not> attached (attachLoop demo_env demo_plan ?shade ?art ''m'' 3 ?s0)"
    by (rule attachLoop_needs_pass[OF demo_env_rejects]) simp
  note t = attachment_exhaustion_nonfatal[OF demo_env_confined init iso sorted orig cl placed
      refl art refl fail refl]
  note asm = t[THEN conjunct2, THEN conjunct2, THEN conjunct2, THEN conjunct2, THEN conjunct2]
  have "snd (assemble demo_env demo_plan demo_artifacts ''m'' demo_assembly) = None"
    unfolding asm[THEN conjunct1] by (rule snd_conv)
  then show ?thesis using asm[THEN conjunct2] by (rule conjI[rotated])
qed

end
